theory Spec2Isabelle
  imports Complex_Main
begin

section \<open>Token-bucket rate limiter (class RateLimiter)\<close>

text \<open>
  JavaScript numbers are modelled exactly: the token count, the capacity and the refill
  rate are rationals, and \<open>Date.now()\<close> is an integer number of milliseconds that every
  operation receives as its argument \<open>now\<close>. The code computes in doubles, which round
  a product such as \<open>elapsed * refillRate\<close>; rounding keeps the order of numbers and is
  exact on the integers up to \<open>2^53\<close>, and the properties below rely on no more than that. A queue entry (the pair of promise callbacks
  \<open>{resolve, reject}\<close>) is named by a number; calling one of the callbacks, or
  \<open>setTimeout\<close>, is an effect that the operation returns beside the new state.
\<close>

type_synonym waiter = nat

record RateLimiter =
  tokens :: rat
  maxTokens :: rat
  refillRate :: rat
  lastRefill :: int
  queue :: "waiter list"

datatype effect =
    Resolve waiter
  | Reject waiter string
  | SetTimeout "int option"

definition RateLimiter_new :: "rat \<Rightarrow> int \<Rightarrow> RateLimiter" where
  "RateLimiter_new requestsPerMinute now =
     \<lparr>tokens = requestsPerMinute,
      maxTokens = requestsPerMinute,
      refillRate = requestsPerMinute / 60000,
      lastRefill = now,
      queue = []\<rparr>"

definition refillTokens :: "int \<Rightarrow> RateLimiter \<Rightarrow> RateLimiter" where
  "refillTokens now s =
     (let elapsed = now - lastRefill s;
          tokensToAdd = of_int elapsed * refillRate s
      in s\<lparr>tokens := min (maxTokens s) (tokens s + tokensToAdd), lastRefill := now\<rparr>)"

text \<open>
  \<open>(1 - tokens) / refillRate\<close>; with a refill rate of zero JavaScript's division gives an
  infinity or NaN, which is \<open>None\<close> here. The quotient is the exact one; the rounded
  quotient of the code can make the delay that \<open>scheduleRefill\<close> asks for differ by a
  millisecond, and no property below depends on the delay.
\<close>

definition timeToNextToken :: "RateLimiter \<Rightarrow> rat option" where
  "timeToNextToken s =
     (if refillRate s = 0 then None else Some ((1 - tokens s) / refillRate s))"

definition scheduleRefill :: "RateLimiter \<Rightarrow> effect list" where
  "scheduleRefill s =
     (if queue s = [] then []
      else [SetTimeout (map_option ceiling (timeToNextToken s))])"

definition acquire :: "int \<Rightarrow> waiter \<Rightarrow> RateLimiter \<Rightarrow> RateLimiter \<times> effect list" where
  "acquire now w s =
     (let s1 = refillTokens now s
      in if tokens s1 \<ge> 1 then (s1\<lparr>tokens := tokens s1 - 1\<rparr>, [Resolve w])
         else (let s2 = s1\<lparr>queue := queue s1 @ [w]\<rparr> in (s2, scheduleRefill s2)))"

text \<open>The \<open>while\<close> loop of \<open>processQueue\<close>: \<open>queue.shift()\<close> takes the front entry.\<close>

function processQueue_loop :: "RateLimiter \<Rightarrow> RateLimiter \<times> effect list" where
  "processQueue_loop s =
     (if length (queue s) > 0 \<and> tokens s \<ge> 1
      then (case queue s of
              [] \<Rightarrow> (s, [])
            | item # rest \<Rightarrow>
                (let (s', effs) = processQueue_loop (s\<lparr>queue := rest, tokens := tokens s - 1\<rparr>)
                 in (s', Resolve item # effs)))
      else (s, []))"
  by pat_completeness auto
termination
  by (relation "measure (\<lambda>s. length (queue s))") auto

definition processQueue :: "RateLimiter \<Rightarrow> RateLimiter \<times> effect list" where
  "processQueue s =
     (let (s1, effs) = processQueue_loop s
      in (s1, effs @ (if length (queue s1) > 0 then scheduleRefill s1 else [])))"

text \<open>The callback that \<open>scheduleRefill\<close> hands to \<open>setTimeout\<close>.\<close>

definition onTimeout :: "int \<Rightarrow> RateLimiter \<Rightarrow> RateLimiter \<times> effect list" where
  "onTimeout now s = processQueue (refillTokens now s)"

record limiter_status =
  remaining :: int
  total :: rat

definition getStatus :: "int \<Rightarrow> RateLimiter \<Rightarrow> RateLimiter \<times> limiter_status" where
  "getStatus now s =
     (let s1 = refillTokens now s
      in (s1, \<lparr>remaining = floor (tokens s1), total = maxTokens s1\<rparr>))"

fun reset_loop :: "waiter list \<Rightarrow> effect list" where
  "reset_loop [] = []"
| "reset_loop (item # rest) = Reject item ''Rate limiter reset'' # reset_loop rest"

definition reset :: "int \<Rightarrow> RateLimiter \<Rightarrow> RateLimiter \<times> effect list" where
  "reset now s =
     (s\<lparr>tokens := maxTokens s, lastRefill := now, queue := []\<rparr>, reset_loop (queue s))"

subsection \<open>Callers of the limiter\<close>

text \<open>
  A run of the limiter is a sequence of calls, each at its own clock reading. The timer
  callback may fire at any moment, which covers every delay \<open>setTimeout\<close> can produce.
  The \<open>k\<close>-th call of \<open>acquire()\<close> is waiter \<open>k\<close>. The world records what a caller can
  observe: the callbacks invoked so far, and which callers found their promise still
  pending when \<open>acquire()\<close> returned.
\<close>

datatype call = Acquire int | Timeout int | GetStatus int | Reset int

fun clock :: "call \<Rightarrow> int" where
  "clock (Acquire now) = now"
| "clock (Timeout now) = now"
| "clock (GetStatus now) = now"
| "clock (Reset now) = now"

record world =
  limiter :: RateLimiter
  arrivals :: nat
  pending :: "waiter list"
  log :: "effect list"

definition fresh :: "rat \<Rightarrow> int \<Rightarrow> world" where
  "fresh requestsPerMinute now =
     \<lparr>limiter = RateLimiter_new requestsPerMinute now, arrivals = 0, pending = [], log = []\<rparr>"

fun step :: "world \<Rightarrow> call \<Rightarrow> world" where
  "step w (Acquire now) =
     (let me = arrivals w; (s, effs) = acquire now me (limiter w)
      in w\<lparr>limiter := s, arrivals := Suc me,
           pending := (if Resolve me \<in> set effs then pending w else pending w @ [me]),
           log := log w @ effs\<rparr>)"
| "step w (Timeout now) =
     (let (s, effs) = onTimeout now (limiter w) in w\<lparr>limiter := s, log := log w @ effs\<rparr>)"
| "step w (GetStatus now) = w\<lparr>limiter := fst (getStatus now (limiter w))\<rparr>"
| "step w (Reset now) =
     (let (s, effs) = reset now (limiter w) in w\<lparr>limiter := s, log := log w @ effs\<rparr>)"

definition run :: "world \<Rightarrow> call list \<Rightarrow> world" where
  "run w cs = foldl step w cs"

text \<open>The waiters whose callbacks (\<open>resolve\<close> or \<open>reject\<close>) a list of effects invokes, in order.\<close>

fun served :: "effect list \<Rightarrow> waiter list" where
  "served [] = []"
| "served (Resolve v # es) = v # served es"
| "served (Reject v msg # es) = v # served es"
| "served (SetTimeout d # es) = served es"

text \<open>
  The bookkeeping every run keeps: waiters are numbered in call order, each caller so far
  is either served (once) or in the queue (once), and the callers that had to wait are,
  in call order, those already served followed by the queue.
\<close>

definition world_inv :: "world \<Rightarrow> bool" where
  "world_inv w \<longleftrightarrow>
     (\<forall>v \<in> set (pending w). v < arrivals w) \<and>
     sorted_wrt (<) (pending w) \<and>
     distinct (served (log w) @ queue (limiter w)) \<and>
     set (served (log w) @ queue (limiter w)) = {..<arrivals w} \<and>
     pending w = filter (\<lambda>v. v \<in> set (pending w)) (served (log w)) @ queue (limiter w)"

section \<open>Error handling (RedditAPIError, parseRedditError, retryWithBackoff)\<close>

text \<open>
  A JavaScript number that may be NaN. \<open>parseInt\<close> yields an integer or NaN; it is
  computed exactly, without the rounding of very long digit strings to a double.
\<close>

datatype number = Num rat | NaN

fun number_times :: "number \<Rightarrow> rat \<Rightarrow> number" where
  "number_times (Num x) k = Num (x * k)"
| "number_times NaN k = NaN"

text \<open>
  The class hierarchy: the tag says which constructor built the error (what \<open>instanceof\<close>
  tests); \<open>RateLimitError\<close> adds the field \<open>retryAfter\<close>.
\<close>

datatype error_class =
    RedditAPIError
  | RateLimitError (retryAfter: number)
  | AuthenticationError
  | NotFoundError
  | ForbiddenError

text \<open>The body of an HTTP response: its \<open>message\<close> member when it has one, and the rest.\<close>

record response_data =
  data_message :: "string option"
  data_rest :: string

record api_error =
  cls :: error_class
  name :: string
  message :: string
  statusCode :: "int option"
  errorCode :: "string option"
  details :: "response_data option"

definition new_RedditAPIError ::
  "string \<Rightarrow> int option \<Rightarrow> string option \<Rightarrow> response_data option \<Rightarrow> api_error" where
  "new_RedditAPIError msg st code det =
     \<lparr>cls = RedditAPIError, name = ''RedditAPIError'', message = msg,
      statusCode = st, errorCode = code, details = det\<rparr>"

definition new_RateLimitError :: "string \<Rightarrow> number \<Rightarrow> api_error" where
  "new_RateLimitError msg after =
     \<lparr>cls = RateLimitError after, name = ''RateLimitError'', message = msg,
      statusCode = Some 429, errorCode = Some ''RATE_LIMIT_EXCEEDED'', details = None\<rparr>"

definition new_AuthenticationError :: "string \<Rightarrow> api_error" where
  "new_AuthenticationError msg =
     \<lparr>cls = AuthenticationError, name = ''AuthenticationError'', message = msg,
      statusCode = Some 401, errorCode = Some ''AUTHENTICATION_FAILED'', details = None\<rparr>"

definition new_NotFoundError :: "string \<Rightarrow> api_error" where
  "new_NotFoundError msg =
     \<lparr>cls = NotFoundError, name = ''NotFoundError'', message = msg,
      statusCode = Some 404, errorCode = Some ''NOT_FOUND'', details = None\<rparr>"

definition new_ForbiddenError :: "string \<Rightarrow> api_error" where
  "new_ForbiddenError msg =
     \<lparr>cls = ForbiddenError, name = ''ForbiddenError'', message = msg,
      statusCode = Some 403, errorCode = Some ''FORBIDDEN'', details = None\<rparr>"

text \<open>
  What an HTTP client error carries: \<open>error.response\<close> with its status, its body and the
  \<open>retry-after\<close> header, when a response arrived at all.
\<close>

record response =
  status :: int
  data :: "response_data option"
  retry_after :: "string option"

text \<open>
  Anything a \<open>catch\<close> can receive: an instance of \<open>AxiosError\<close> (message, response),
  one of this module's errors, another \<open>Error\<close> (message), a plain object with the
  members of an axios error, \<open>{response, isAxiosError: true}\<close>, that no class constructed
  (what the tests and the mocked client reject with), or another value that is not an
  \<open>Error\<close> (kept as its \<open>String(...)\<close> rendering).
\<close>

datatype thrown =
    AxiosError string "response option"
  | ApiError api_error
  | OtherError string
  | PlainObject "response option"
  | NonError string

text \<open>JavaScript's \<open>a || b\<close> on an optional string: the empty string is falsy, like \<open>undefined\<close>.\<close>

definition truthy :: "string option \<Rightarrow> bool" where
  "truthy a = (case a of None \<Rightarrow> False | Some x \<Rightarrow> x \<noteq> [])"

definition or_else :: "string option \<Rightarrow> string \<Rightarrow> string" where
  "or_else a b = (case a of None \<Rightarrow> b | Some x \<Rightarrow> if x \<noteq> [] then x else b)"

subsection \<open>\<open>parseInt(s, 10)\<close> and the rendering of a number in a template string\<close>

text \<open>
  A string is a list of code units below 256, which is what a header value holds; the
  white space among them is tab, line feed, vertical tab, form feed, carriage return,
  space and the no-break space U+00A0.
\<close>

definition is_space :: "char \<Rightarrow> bool" where
  "is_space c \<longleftrightarrow> (of_char c :: nat) \<in> {9, 10, 11, 12, 13, 32, 160}"

definition is_digit :: "char \<Rightarrow> bool" where
  "is_digit c \<longleftrightarrow> 48 \<le> (of_char c :: nat) \<and> (of_char c :: nat) \<le> 57"

definition digit_value :: "char \<Rightarrow> nat" where
  "digit_value c = of_char c - 48"

definition digits_value :: "string \<Rightarrow> nat" where
  "digits_value ds = foldl (\<lambda>acc c. acc * 10 + digit_value c) 0 ds"

text \<open>
  Leading white space is skipped, one sign is read, then the longest run of decimal digits;
  no digit gives NaN (\<open>None\<close>). The result is the integer the digits denote. JavaScript
  holds it as a double, which is that integer up to \<open>2^53\<close> and the nearest double beyond;
  the properties below speak of values up to \<open>2^53\<close> only.
\<close>

definition parseInt10 :: "string \<Rightarrow> int option" where
  "parseInt10 str =
     (let trimmed = dropWhile is_space str;
          (sign, rest) = (case trimmed of
                            [] \<Rightarrow> (1, [])
                          | c # cs \<Rightarrow> if c = CHR ''-'' then (- 1, cs)
                                     else if c = CHR ''+'' then (1, cs)
                                     else (1, trimmed));
          ds = takeWhile is_digit rest
      in if ds = [] then None else Some (sign * int (digits_value ds)))"

definition digit_char :: "nat \<Rightarrow> char" where
  "digit_char d = char_of (48 + d)"

fun decimal :: "nat \<Rightarrow> string" where
  "decimal n = (if n < 10 then [digit_char n] else decimal (n div 10) @ [digit_char (n mod 10)])"

definition number_text :: "int option \<Rightarrow> string" where
  "number_text x =
     (case x of
        None \<Rightarrow> ''NaN''
      | Some i \<Rightarrow> if i < 0 then CHR ''-'' # decimal (nat (- i)) else decimal (nat i))"

definition as_number :: "int option \<Rightarrow> number" where
  "as_number x = (case x of None \<Rightarrow> NaN | Some i \<Rightarrow> Num (of_int i))"

subsection \<open>parseRedditError\<close>

definition response_message :: "response option \<Rightarrow> string option" where
  "response_message r =
     (case r of None \<Rightarrow> None
      | Some resp \<Rightarrow> (case data resp of None \<Rightarrow> None | Some d \<Rightarrow> data_message d))"

definition parseRedditError :: "thrown \<Rightarrow> api_error" where
  "parseRedditError error =
     (case error of
        AxiosError msg r \<Rightarrow>
          (let st = map_option status r;
               dat = (case r of None \<Rightarrow> None | Some resp \<Rightarrow> data resp);
               data_msg = response_message r
           in if st = Some 401 then
                new_AuthenticationError
                  (or_else data_msg ''Authentication failed. Please check your credentials.'')
              else if st = Some 403 then
                new_ForbiddenError
                  (or_else data_msg
                     ''Access forbidden. You may not have permission to access this resource.'')
              else if st = Some 404 then
                new_NotFoundError (or_else data_msg ''Resource not found.'')
              else if st = Some 429 then
                (let after = parseInt10
                       (or_else (case r of None \<Rightarrow> None | Some resp \<Rightarrow> retry_after resp) ''60'')
                 in new_RateLimitError
                      (''Rate limit exceeded. Retry after '' @ number_text after @ '' seconds.'')
                      (as_number after))
              else if st = Some 500 \<or> st = Some 502 \<or> st = Some 503 \<or> st = Some 504 then
                new_RedditAPIError
                  ''Reddit API is currently unavailable. Please try again later.''
                  st (Some ''SERVICE_UNAVAILABLE'') None
              else
                new_RedditAPIError
                  (or_else data_msg (or_else (Some msg) ''An unknown error occurred''))
                  st (Some ''UNKNOWN_ERROR'') dat)
      | ApiError e \<Rightarrow> new_RedditAPIError (message e) None None None
      | OtherError msg \<Rightarrow> new_RedditAPIError msg None None None
      | PlainObject r \<Rightarrow> new_RedditAPIError ''An unknown error occurred'' None None None
      | NonError v \<Rightarrow> new_RedditAPIError ''An unknown error occurred'' None None None)"

subsection \<open>retryWithBackoff\<close>

text \<open>
  The operation \<open>fn\<close> is given by the outcome of each of its invocations: \<open>fn k\<close> is what
  the call made in loop iteration \<open>k\<close> does, a thrown value or a result. \<open>rnd k\<close> is the
  value \<open>Math.random()\<close> returns in iteration \<open>k\<close>. The result tells the outcome, how often
  \<open>fn\<close> was invoked and the arguments of the calls of \<open>sleep\<close>, in order.
\<close>

record 'a retry_result =
  outcome :: "thrown + 'a"
  invocations :: nat
  sleeps :: "number list"

definition instanceof_Error :: "thrown \<Rightarrow> bool" where
  "instanceof_Error error =
     (case error of NonError v \<Rightarrow> False | PlainObject r \<Rightarrow> False | _ \<Rightarrow> True)"

definition no_retry :: "thrown \<Rightarrow> bool" where
  "no_retry error =
     (case error of
        ApiError e \<Rightarrow> cls e = AuthenticationError \<or> cls e = ForbiddenError \<or> cls e = NotFoundError
      | _ \<Rightarrow> False)"

text \<open>\<open>String(error)\<close> of a value that is not an \<open>Error\<close>.\<close>

definition String_of :: "thrown \<Rightarrow> string" where
  "String_of error =
     (case error of
        NonError v \<Rightarrow> v
      | PlainObject r \<Rightarrow> ''[object Object]''
      | _ \<Rightarrow> [])"

definition to_Error :: "thrown \<Rightarrow> thrown" where
  "to_Error error =
     (if instanceof_Error error then error else OtherError (String_of error))"

definition sleep_time :: "rat \<Rightarrow> (nat \<Rightarrow> rat) \<Rightarrow> nat \<Rightarrow> thrown \<Rightarrow> number" where
  "sleep_time baseDelay rnd attempt error =
     (let delay = baseDelay * 2 ^ attempt + rnd attempt * 1000
      in case error of
           ApiError e \<Rightarrow>
             (case cls e of RateLimitError after \<Rightarrow> number_times after 1000 | _ \<Rightarrow> Num delay)
         | _ \<Rightarrow> Num delay)"

text \<open>\<open>throw lastError || new Error('Max retries exceeded')\<close>, after the loop.\<close>

definition throw_lastError :: "thrown option \<Rightarrow> thrown + 'a" where
  "throw_lastError lastError =
     Inl (case lastError of Some e \<Rightarrow> e | None \<Rightarrow> OtherError ''Max retries exceeded'')"

function retry_loop ::
  "(nat \<Rightarrow> thrown + 'a) \<Rightarrow> (nat \<Rightarrow> rat) \<Rightarrow> int \<Rightarrow> rat \<Rightarrow> nat \<Rightarrow> thrown option \<Rightarrow> number list
     \<Rightarrow> 'a retry_result" where
  "retry_loop fn rnd maxRetries baseDelay attempt lastError slept =
     (if int attempt \<le> maxRetries then
        (case fn attempt of
           Inr v \<Rightarrow> \<lparr>outcome = Inr v, invocations = Suc attempt, sleeps = slept\<rparr>
         | Inl error \<Rightarrow>
             if no_retry error then
               \<lparr>outcome = Inl error, invocations = Suc attempt, sleeps = slept\<rparr>
             else if int attempt = maxRetries then
               \<lparr>outcome = throw_lastError (Some (to_Error error)),
                invocations = Suc attempt, sleeps = slept\<rparr>
             else
               retry_loop fn rnd maxRetries baseDelay (Suc attempt) (Some (to_Error error))
                 (slept @ [sleep_time baseDelay rnd attempt error]))
      else
        \<lparr>outcome = throw_lastError lastError, invocations = attempt, sleeps = slept\<rparr>)"
  by pat_completeness auto
termination
  by (relation "measure (\<lambda>(fn, rnd, maxRetries, baseDelay, attempt, lastError, slept).
        nat (maxRetries + 1 - int attempt))") auto

definition retryWithBackoff ::
  "(nat \<Rightarrow> thrown + 'a) \<Rightarrow> (nat \<Rightarrow> rat) \<Rightarrow> int \<Rightarrow> rat \<Rightarrow> 'a retry_result" where
  "retryWithBackoff fn rnd maxRetries baseDelay =
     retry_loop fn rnd maxRetries baseDelay 0 None []"

section \<open>OAuth2 token handling (class RedditAuth)\<close>

record RedditConfig =
  clientId :: string
  clientSecret :: string
  userAgent :: string
  username :: "string option"
  password :: "string option"
  config_refreshToken :: "string option"

record RedditAuthResponse =
  access_token :: string
  token_type :: string
  expires_in :: int
  scope :: string
  refresh_token :: "string option"

record RedditAuth =
  accessToken :: "string option"
  refreshToken :: "string option"
  tokenExpiry :: int
  config :: RedditConfig

text \<open>
  The requests \<open>authClient.post\<close> sends. The authorization server is a function of the
  requests sent so far, the last one being the current request: it answers with a rejected
  promise (a thrown value) or with the response body, and with the reading of \<open>Date.now()\<close>
  when the answer is handled. A session is the object together with the requests it has
  sent and the errors it has written with \<open>console.error\<close>.
\<close>

datatype request =
    PasswordGrant string string
  | RefreshGrant string
  | RevokeToken string

type_synonym server = "request list \<Rightarrow> (thrown + RedditAuthResponse) \<times> int"

record session =
  auth :: RedditAuth
  sent :: "request list"
  console :: "api_error list"

definition RedditAuth_new :: "RedditConfig \<Rightarrow> RedditAuth" where
  "RedditAuth_new cfg =
     \<lparr>accessToken = None,
      refreshToken = (if truthy (config_refreshToken cfg) then config_refreshToken cfg else None),
      tokenExpiry = 0,
      config = cfg\<rparr>"

definition handleAuthResponse :: "RedditAuthResponse \<Rightarrow> int \<Rightarrow> RedditAuth \<Rightarrow> RedditAuth \<times> string" where
  "handleAuthResponse dat now a =
     (let a1 = a\<lparr>accessToken := Some (access_token dat),
                 tokenExpiry := now + expires_in dat * 1000\<rparr>;
          a2 = (if truthy (refresh_token dat) then a1\<lparr>refreshToken := refresh_token dat\<rparr> else a1)
      in (a2, access_token dat))"

text \<open>The \<open>try\<close> block shared by both grants: send the request, store the answer.\<close>

definition post_access_token :: "server \<Rightarrow> request \<Rightarrow> session \<Rightarrow> (api_error + string) \<times> session" where
  "post_access_token srv req w =
     (let requests = sent w @ [req]
      in case srv requests of
           (Inl error, now) \<Rightarrow> (Inl (parseRedditError error), w\<lparr>sent := requests\<rparr>)
         | (Inr dat, now) \<Rightarrow>
             (let (a, token) = handleAuthResponse dat now (auth w)
              in (Inr token, w\<lparr>auth := a, sent := requests\<rparr>)))"

definition authenticateWithPassword :: "server \<Rightarrow> session \<Rightarrow> (api_error + string) \<times> session" where
  "authenticateWithPassword srv w =
     (case (username (config (auth w)), password (config (auth w))) of
        (Some u, Some p) \<Rightarrow>
          if u \<noteq> [] \<and> p \<noteq> [] then post_access_token srv (PasswordGrant u p) w
          else (Inl (new_AuthenticationError
                  ''Username and password are required for script authentication''), w)
      | _ \<Rightarrow> (Inl (new_AuthenticationError
                  ''Username and password are required for script authentication''), w))"

definition authenticateWithRefreshToken :: "server \<Rightarrow> session \<Rightarrow> (api_error + string) \<times> session" where
  "authenticateWithRefreshToken srv w =
     (case refreshToken (auth w) of
        Some t \<Rightarrow>
          if t \<noteq> [] then post_access_token srv (RefreshGrant t) w
          else (Inl (new_AuthenticationError ''No refresh token available''), w)
      | None \<Rightarrow> (Inl (new_AuthenticationError ''No refresh token available''), w))"


definition isAuthenticated :: "int \<Rightarrow> RedditAuth \<Rightarrow> bool" where
  "isAuthenticated now a \<longleftrightarrow> accessToken a \<noteq> None \<and> now < tokenExpiry a"

definition getRefreshToken :: "RedditAuth \<Rightarrow> string option" where
  "getRefreshToken a = refreshToken a"

definition setRefreshToken :: "string \<Rightarrow> RedditAuth \<Rightarrow> RedditAuth" where
  "setRefreshToken token a = a\<lparr>refreshToken := Some token\<rparr>"

definition revokeToken :: "server \<Rightarrow> session \<Rightarrow> (api_error + unit) \<times> session" where
  "revokeToken srv w =
     (case accessToken (auth w) of
        None \<Rightarrow> (Inr (), w)
      | Some t \<Rightarrow>
          if t = [] then (Inr (), w)
          else
            (let requests = sent w @ [RevokeToken t]
             in case srv requests of
                  (Inl error, now) \<Rightarrow> (Inl (parseRedditError error), w\<lparr>sent := requests\<rparr>)
                | (Inr dat, now) \<Rightarrow>
                    (Inr (), w\<lparr>auth := (auth w)\<lparr>accessToken := None, tokenExpiry := 0\<rparr>,
                               sent := requests\<rparr>)))"

text \<open>What holds of the waits so far: each one follows a failed invocation that is retried.\<close>

definition retry_ok ::
  "(nat \<Rightarrow> thrown + 'a) \<Rightarrow> (nat \<Rightarrow> rat) \<Rightarrow> rat \<Rightarrow> number list \<Rightarrow> bool" where
  "retry_ok fn rnd baseDelay slept \<longleftrightarrow>
     (\<forall>j < length slept. \<exists>err. fn j = Inl err \<and> \<not> no_retry err
        \<and> slept ! j = sleep_time baseDelay rnd j err)"

section \<open>Scenarios used as concrete inputs\<close>

definition unavailable :: thrown where
  "unavailable = ApiError (new_RedditAPIError
     ''Reddit API is currently unavailable. Please try again later.''
     (Some 503) (Some ''SERVICE_UNAVAILABLE'') None)"

definition denied :: thrown where
  "denied = ApiError (new_AuthenticationError ''Authentication failed'')"

definition fails_twice :: "nat \<Rightarrow> thrown + nat" where
  "fails_twice k = (if k < 2 then Inl unavailable else Inr 7)"

definition always_denied :: "nat \<Rightarrow> thrown + nat" where
  "always_denied k = Inl denied"

definition rate_limited :: thrown where
  "rate_limited = ApiError (new_RateLimitError ''Rate limited'' (Num 5))"

definition limited_once :: "nat \<Rightarrow> thrown + nat" where
  "limited_once k = (if k = 0 then Inl rate_limited else Inr 7)"

text \<open>The object of the first test of \<open>parseRedditError\<close>.\<close>

definition test_object :: thrown where
  "test_object =
     PlainObject (Some \<lparr>status = 401,
       data = Some \<lparr>data_message = Some ''Invalid credentials'', data_rest = []\<rparr>,
       retry_after = None\<rparr>)"

definition half :: "nat \<Rightarrow> rat" where
  "half k = 1 / 2"

definition script_config :: RedditConfig where
  "script_config =
     \<lparr>clientId = ''id'', clientSecret = ''secret'', userAgent = ''agent'',
      username = Some ''user'', password = Some ''pass'', config_refreshToken = None\<rparr>"

definition bare_config :: RedditConfig where
  "bare_config =
     \<lparr>clientId = ''id'', clientSecret = ''secret'', userAgent = ''agent'',
      username = None, password = None, config_refreshToken = None\<rparr>"

definition logged_in :: session where
  "logged_in =
     \<lparr>auth = \<lparr>accessToken = Some ''abc'', refreshToken = None, tokenExpiry = 3600000,
              config = script_config\<rparr>,
      sent = [], console = []\<rparr>"


definition no_credentials :: session where
  "no_credentials =
     \<lparr>auth = RedditAuth_new bare_config, sent = [], console = []\<rparr>"

definition http_error :: "int \<Rightarrow> thrown" where
  "http_error st = AxiosError ''Request failed'' (Some \<lparr>status = st, data = None, retry_after = None\<rparr>)"

definition server_down :: server where
  "server_down requests = (Inl (http_error 503), 1000)"

definition refresh_rejected :: server where
  "refresh_rejected requests =
     (case rev requests of
        RefreshGrant t # earlier \<Rightarrow> (Inl (http_error 401), 1000)
      | _ \<Rightarrow> (Inr \<lparr>access_token = ''fresh'', token_type = ''bearer'', expires_in = 3600,
                   scope = ''*'', refresh_token = None\<rparr>, 2000))"

section \<open>Properties of the rate limiter\<close>

lemma refillTokens_fields:
  "maxTokens (refillTokens now s) = maxTokens s"
  "refillRate (refillTokens now s) = refillRate s"
  "queue (refillTokens now s) = queue s"
  "lastRefill (refillTokens now s) = now"
  by (simp_all add: refillTokens_def Let_def)

lemma refillTokens_le_max: "tokens (refillTokens now s) \<le> maxTokens s"
  by (simp add: refillTokens_def Let_def)

lemma refillTokens_nonneg:
  assumes "0 \<le> tokens s" "0 \<le> maxTokens s" "0 \<le> refillRate s" "lastRefill s \<le> now"
  shows "0 \<le> tokens (refillTokens now s)"
proof -
  have "0 \<le> of_int (now - lastRefill s) * refillRate s"
    using assms by simp
  then show ?thesis
    using assms by (simp add: refillTokens_def Let_def)
qed

lemma processQueue_loop_props:
  "processQueue_loop s = (s', effs) \<Longrightarrow>
     maxTokens s' = maxTokens s \<and> refillRate s' = refillRate s \<and> lastRefill s' = lastRefill s
     \<and> tokens s' = tokens s - of_nat (length effs)
     \<and> (effs \<noteq> [] \<longrightarrow> 0 \<le> tokens s')
     \<and> effs = map Resolve (take (length effs) (queue s))
     \<and> queue s' = drop (length effs) (queue s)
     \<and> length effs \<le> length (queue s)
     \<and> (queue s' = [] \<or> tokens s' < 1)"
proof (induction s arbitrary: s' effs rule: processQueue_loop.induct)
  case (1 s)
  show ?case
  proof (cases "length (queue s) > 0 \<and> tokens s \<ge> 1")
    case False
    with "1.prems" show ?thesis by auto
  next
    case True
    then obtain item rest where q: "queue s = item # rest" by (cases "queue s") auto
    obtain s2 effs2 where r: "processQueue_loop (s\<lparr>queue := rest, tokens := tokens s - 1\<rparr>) = (s2, effs2)"
      by fastforce
    from "1.prems" True q r have res: "s' = s2" "effs = Resolve item # effs2"
      by (simp_all add: processQueue_loop.simps[of s])
    have IH: "maxTokens s2 = maxTokens s" "refillRate s2 = refillRate s"
      "lastRefill s2 = lastRefill s" "tokens s2 = tokens s - 1 - of_nat (length effs2)"
      "effs2 \<noteq> [] \<longrightarrow> 0 \<le> tokens s2" "effs2 = map Resolve (take (length effs2) rest)"
      "queue s2 = drop (length effs2) rest" "length effs2 \<le> length rest" "queue s2 = [] \<or> tokens s2 < 1"
      using "1.IH"[OF True q r] by auto
    have "0 \<le> tokens s2"
    proof (cases "effs2 = []")
      case True
      then show ?thesis using IH(4) \<open>length (queue s) > 0 \<and> tokens s \<ge> 1\<close> by simp
    next
      case False
      then show ?thesis using IH(5) by simp
    qed
    then show ?thesis using IH res q by auto
  qed
qed

lemma served_append: "served (xs @ ys) = served xs @ served ys"
  by (induction xs rule: served.induct) auto

lemma served_map_Resolve: "served (map Resolve ks) = ks"
  by (induction ks) auto

lemma served_reset_loop: "served (reset_loop q) = q"
  by (induction q) auto

lemma served_scheduleRefill: "served (scheduleRefill s) = []"
  by (simp add: scheduleRefill_def)

lemma acquire_cases:
  assumes "acquire now me s = (s', effs)"
  shows "(1 \<le> tokens (refillTokens now s) \<and> effs = [Resolve me] \<and> queue s' = queue s
            \<and> tokens s' = tokens (refillTokens now s) - 1)
       \<or> (tokens (refillTokens now s) < 1 \<and> served effs = [] \<and> Resolve me \<notin> set effs
            \<and> queue s' = queue s @ [me] \<and> tokens s' = tokens (refillTokens now s))"
  using assms
  by (auto simp: acquire_def Let_def refillTokens_fields scheduleRefill_def split: if_splits)

lemma processQueue_served:
  assumes "processQueue s = (s', effs)"
  shows "\<exists>k \<le> length (queue s). served effs = take k (queue s) \<and> queue s' = drop k (queue s)"
proof -
  obtain s1 effs1 where l: "processQueue_loop s = (s1, effs1)" by fastforce
  from processQueue_loop_props[OF l]
  have p: "effs1 = map Resolve (take (length effs1) (queue s))"
    "queue s1 = drop (length effs1) (queue s)" "length effs1 \<le> length (queue s)"
    by simp_all
  from assms l have e: "s' = s1" "served effs = served effs1"
    by (auto simp: processQueue_def served_append served_scheduleRefill)
  have "served effs1 = take (length effs1) (queue s)"
    using p(1) served_map_Resolve by metis
  with e p show ?thesis by auto
qed

lemma filter_notin_extend:
  "me \<notin> set xs \<Longrightarrow> filter (\<lambda>v. v \<in> set (ps @ [me])) xs = filter (\<lambda>v. v \<in> set ps) xs"
  by (induction xs) auto

lemma processQueue_props:
  assumes "processQueue s = (s', effs)"
  shows "maxTokens s' = maxTokens s \<and> refillRate s' = refillRate s \<and> lastRefill s' = lastRefill s
     \<and> tokens s' = tokens s - of_nat (length (served effs))
     \<and> (served effs \<noteq> [] \<longrightarrow> 0 \<le> tokens s')"
proof -
  obtain s1 effs1 where l: "processQueue_loop s = (s1, effs1)" by fastforce
  note p = processQueue_loop_props[OF l]
  from assms l have e: "s' = s1" "served effs = served effs1"
    by (auto simp: processQueue_def served_append served_scheduleRefill)
  have "served effs1 = take (length effs1) (queue s)"
    using p served_map_Resolve by metis
  then have "length (served effs1) = length effs1" using p by simp
  with e p show ?thesis by auto
qed

lemma step_limiter_fields:
  "maxTokens (limiter (step w c)) = maxTokens (limiter w)"
  "refillRate (limiter (step w c)) = refillRate (limiter w)"
  "lastRefill (limiter (step w c)) = clock c"
proof -
  have "maxTokens (limiter (step w c)) = maxTokens (limiter w)
      \<and> refillRate (limiter (step w c)) = refillRate (limiter w)
      \<and> lastRefill (limiter (step w c)) = clock c"
  proof (cases c)
    case (Acquire now)
    then show ?thesis
      by (simp add: acquire_def Let_def refillTokens_fields split: prod.splits)
  next
    case (Timeout now)
    obtain s' effs where a: "processQueue (refillTokens now (limiter w)) = (s', effs)" by fastforce
    from processQueue_props[OF a] a Timeout show ?thesis
      by (simp add: onTimeout_def refillTokens_fields)
  next
    case (GetStatus now)
    then show ?thesis by (simp add: getStatus_def Let_def refillTokens_fields)
  next
    case (Reset now)
    then show ?thesis by (simp add: reset_def)
  qed
  then show "maxTokens (limiter (step w c)) = maxTokens (limiter w)"
    "refillRate (limiter (step w c)) = refillRate (limiter w)"
    "lastRefill (limiter (step w c)) = clock c" by simp_all
qed

lemma step_tokens_le:
  "tokens (limiter (step w c)) \<le> maxTokens (limiter w)"
proof (cases c)
  case (Acquire now)
  have "tokens (refillTokens now (limiter w)) \<le> maxTokens (limiter w)"
    by (rule refillTokens_le_max)
  then show ?thesis using Acquire
    by (auto simp: acquire_def Let_def split: prod.splits)
next
  case (Timeout now)
  obtain s' effs where a: "processQueue (refillTokens now (limiter w)) = (s', effs)" by fastforce
  have "tokens s' \<le> tokens (refillTokens now (limiter w))"
    using processQueue_props[OF a] by simp
  also have "\<dots> \<le> maxTokens (limiter w)" by (rule refillTokens_le_max)
  finally show ?thesis using a Timeout by (simp add: onTimeout_def)
next
  case (GetStatus now)
  then show ?thesis by (simp add: getStatus_def Let_def refillTokens_le_max)
next
  case (Reset now)
  then show ?thesis by (simp add: reset_def)
qed

lemma step_tokens_nonneg:
  assumes "0 \<le> tokens (limiter w)" "0 \<le> maxTokens (limiter w)" "0 \<le> refillRate (limiter w)"
    "lastRefill (limiter w) \<le> clock c"
  shows "0 \<le> tokens (limiter (step w c))"
proof (cases c)
  case (Acquire now)
  have "0 \<le> tokens (refillTokens now (limiter w))"
    using assms Acquire by (simp add: refillTokens_nonneg)
  then show ?thesis using Acquire
    by (auto simp: acquire_def Let_def split: prod.splits)
next
  case (Timeout now)
  obtain s' effs where a: "processQueue (refillTokens now (limiter w)) = (s', effs)" by fastforce
  have r: "0 \<le> tokens (refillTokens now (limiter w))"
    using assms Timeout by (simp add: refillTokens_nonneg)
  have "0 \<le> tokens s'"
  proof (cases "served effs = []")
    case True
    then show ?thesis using processQueue_props[OF a] r by simp
  next
    case False
    then show ?thesis using processQueue_props[OF a] by simp
  qed
  then show ?thesis using a Timeout by (simp add: onTimeout_def)
next
  case (GetStatus now)
  then show ?thesis using assms by (simp add: getStatus_def Let_def refillTokens_nonneg)
next
  case (Reset now)
  then show ?thesis using assms by (simp add: reset_def)
qed

lemma run_snoc: "run w (cs @ [c]) = step (run w cs) c"
  by (simp add: run_def)

lemma run_fields:
  "maxTokens (limiter (run w cs)) = maxTokens (limiter w)"
  "refillRate (limiter (run w cs)) = refillRate (limiter w)"
  "lastRefill (limiter (run w cs)) = last (lastRefill (limiter w) # map clock cs)"
  by (induction cs rule: rev_induct) (simp_all add: run_snoc step_limiter_fields, simp_all add: run_def)

lemma run_tokens_le:
  "tokens (limiter w) \<le> maxTokens (limiter w) \<Longrightarrow> tokens (limiter (run w cs)) \<le> maxTokens (limiter w)"
proof (induction cs rule: rev_induct)
  case Nil
  then show ?case by (simp add: run_def)
next
  case (snoc c cs)
  show ?case using step_tokens_le[of "run w cs" c] by (simp add: run_snoc run_fields)
qed

lemma run_tokens_nonneg:
  assumes "0 \<le> tokens (limiter w)" "0 \<le> maxTokens (limiter w)" "0 \<le> refillRate (limiter w)"
    "sorted (lastRefill (limiter w) # map clock cs)"
  shows "0 \<le> tokens (limiter (run w cs))"
  using assms(4)
proof (induction cs rule: rev_induct)
  case Nil
  then show ?case using assms(1) by (simp add: run_def)
next
  case (snoc c cs)
  have s: "sorted ((lastRefill (limiter w) # map clock cs) @ [clock c])"
    using snoc.prems by simp
  have srt: "sorted (lastRefill (limiter w) # map clock cs)"
    using s unfolding sorted_append by blast
  have "last (lastRefill (limiter w) # map clock cs) \<in> set (lastRefill (limiter w) # map clock cs)"
    by (rule last_in_set) simp
  then have l: "last (lastRefill (limiter w) # map clock cs) \<le> clock c"
    using s unfolding sorted_append by auto
  have "0 \<le> tokens (limiter (run w cs))" using snoc.IH srt by simp
  then show ?case
    using step_tokens_nonneg[of "run w cs" c] l assms(2,3)
    by (simp add: run_snoc run_fields)
qed

lemma refill_idle_full:
  assumes "0 < cap" "maxTokens s = cap" "refillRate s = cap / 60000" "0 \<le> tokens s"
    "lastRefill s + 60000 \<le> now"
  shows "tokens (refillTokens now s) = cap"
proof -
  have "(60000::rat) \<le> of_int (now - lastRefill s)"
    using assms(5) by (metis add_le_imp_le_diff add.commute of_int_le_iff of_int_numeral)
  then have "60000 * (cap / 60000) \<le> of_int (now - lastRefill s) * (cap / 60000)"
    using assms(1) by (intro mult_right_mono) simp_all
  moreover have "60000 * (cap / 60000) = cap" by simp
  ultimately have "cap \<le> of_int (now - lastRefill s) * refillRate s"
    unfolding assms(3) by (simp only:)
  then have "cap \<le> tokens s + of_int (now - lastRefill s) * refillRate s"
    using assms(4) by linarith
  then show ?thesis using assms(2) by (simp add: refillTokens_def Let_def min_def)
qed



lemma step_shape:
  "(arrivals (step w c) = Suc (arrivals w) \<and> pending (step w c) = pending w
      \<and> served (log (step w c)) = served (log w) @ [arrivals w]
      \<and> queue (limiter (step w c)) = queue (limiter w))
   \<or> (arrivals (step w c) = Suc (arrivals w) \<and> pending (step w c) = pending w @ [arrivals w]
      \<and> served (log (step w c)) = served (log w)
      \<and> queue (limiter (step w c)) = queue (limiter w) @ [arrivals w])
   \<or> (\<exists>k. arrivals (step w c) = arrivals w \<and> pending (step w c) = pending w
      \<and> served (log (step w c)) = served (log w) @ take k (queue (limiter w))
      \<and> queue (limiter (step w c)) = drop k (queue (limiter w)))"
proof (cases c)
  case (Acquire now)
  obtain s' effs where a: "acquire now (arrivals w) (limiter w) = (s', effs)" by fastforce
  from acquire_cases[OF a] show ?thesis
    using a Acquire by (auto simp: Let_def served_append)
next
  case (Timeout now)
  obtain s' effs where a: "onTimeout now (limiter w) = (s', effs)" by fastforce
  then obtain k where "served effs = take k (queue (limiter w))" "queue s' = drop k (queue (limiter w))"
    using processQueue_served[of "refillTokens now (limiter w)" s' effs]
    by (auto simp: onTimeout_def refillTokens_fields)
  then show ?thesis using a Timeout by (auto simp: served_append)
next
  case (GetStatus now)
  have "arrivals (step w c) = arrivals w \<and> pending (step w c) = pending w
      \<and> served (log (step w c)) = served (log w) @ take 0 (queue (limiter w))
      \<and> queue (limiter (step w c)) = drop 0 (queue (limiter w))"
    using GetStatus by (simp add: getStatus_def Let_def refillTokens_fields)
  then show ?thesis by blast
next
  case (Reset now)
  have "arrivals (step w c) = arrivals w \<and> pending (step w c) = pending w
      \<and> served (log (step w c)) = served (log w) @ take (length (queue (limiter w))) (queue (limiter w))
      \<and> queue (limiter (step w c)) = drop (length (queue (limiter w))) (queue (limiter w))"
    using Reset by (simp add: reset_def served_append served_reset_loop)
  then show ?thesis by blast
qed

lemma world_inv_step:
  assumes ok: "world_inv w"
  shows "world_inv (step w c)"
proof -
  have p: "pending w = filter (\<lambda>v. v \<in> set (pending w)) (served (log w)) @ queue (limiter w)"
    and lt: "\<forall>v \<in> set (pending w). v < arrivals w"
    and srt: "sorted_wrt (<) (pending w)"
    and dis: "distinct (served (log w) @ queue (limiter w))"
    and all: "set (served (log w) @ queue (limiter w)) = {..<arrivals w}"
    using ok by (simp_all add: world_inv_def)
  have fresh_p: "arrivals w \<notin> set (pending w)" using lt by auto
  have fresh_l: "arrivals w \<notin> set (served (log w))" and fresh_q: "arrivals w \<notin> set (queue (limiter w))"
    using all by auto
  have sub: "set (queue (limiter w)) \<subseteq> set (pending w)"
    using p by (metis Un_upper2 set_append)
  consider
    (now) "arrivals (step w c) = Suc (arrivals w)" "pending (step w c) = pending w"
      "served (log (step w c)) = served (log w) @ [arrivals w]"
      "queue (limiter (step w c)) = queue (limiter w)"
  | (wait) "arrivals (step w c) = Suc (arrivals w)" "pending (step w c) = pending w @ [arrivals w]"
      "served (log (step w c)) = served (log w)"
      "queue (limiter (step w c)) = queue (limiter w) @ [arrivals w]"
  | (serve) k where "arrivals (step w c) = arrivals w" "pending (step w c) = pending w"
      "served (log (step w c)) = served (log w) @ take k (queue (limiter w))"
      "queue (limiter (step w c)) = drop k (queue (limiter w))"
    using step_shape[of w c] by blast
  then show ?thesis
  proof cases
    case now
    have "pending w = filter (\<lambda>v. v \<in> set (pending w)) (served (log w) @ [arrivals w]) @ queue (limiter w)"
      using p fresh_p by simp
    moreover have "distinct ((served (log w) @ [arrivals w]) @ queue (limiter w))"
      using dis fresh_l fresh_q by auto
    moreover have "set ((served (log w) @ [arrivals w]) @ queue (limiter w)) = {..<Suc (arrivals w)}"
      using all by (auto simp: lessThan_Suc)
    moreover have "\<forall>v \<in> set (pending w). v < Suc (arrivals w)" using lt by auto
    ultimately show ?thesis unfolding world_inv_def now using srt by simp
  next
    case wait
    have f: "filter (\<lambda>v. v \<in> set (pending w @ [arrivals w])) (served (log w))
        = filter (\<lambda>v. v \<in> set (pending w)) (served (log w))"
      using fresh_l by (rule filter_notin_extend)
    have "pending w @ [arrivals w] =
        filter (\<lambda>v. v \<in> set (pending w @ [arrivals w])) (served (log w)) @ queue (limiter w) @ [arrivals w]"
      using f p by simp
    moreover have "distinct (served (log w) @ queue (limiter w) @ [arrivals w])"
      using dis fresh_l fresh_q by auto
    moreover have "set (served (log w) @ queue (limiter w) @ [arrivals w]) = {..<Suc (arrivals w)}"
      using all by (auto simp: lessThan_Suc)
    moreover have "\<forall>v \<in> set (pending w @ [arrivals w]). v < Suc (arrivals w)" using lt by auto
    moreover have "sorted_wrt (<) (pending w @ [arrivals w])"
      using srt lt by (simp add: sorted_wrt_append)
    ultimately show ?thesis unfolding world_inv_def wait by blast
  next
    case serve
    have "set (take k (queue (limiter w))) \<subseteq> set (pending w)"
      using sub set_take_subset by fastforce
    then have "filter (\<lambda>v. v \<in> set (pending w)) (take k (queue (limiter w))) = take k (queue (limiter w))"
      by (auto simp: filter_id_conv)
    then have "pending w =
        filter (\<lambda>v. v \<in> set (pending w)) (served (log w) @ take k (queue (limiter w)))
          @ drop k (queue (limiter w))"
      using p by simp
    moreover have "(served (log w) @ take k (queue (limiter w))) @ drop k (queue (limiter w))
        = served (log w) @ queue (limiter w)" by simp
    ultimately show ?thesis unfolding world_inv_def serve using lt srt dis all by simp
  qed
qed

lemma world_inv_fresh: "world_inv (fresh cap t0)"
  by (simp add: world_inv_def fresh_def RateLimiter_new_def)

lemma world_inv_run: "world_inv (run (fresh cap t0) cs)"
  by (induction cs rule: rev_induct) (simp_all add: run_snoc world_inv_step, simp add: run_def world_inv_fresh)

lemma served_set: "v \<in> set (served es) \<longleftrightarrow> Resolve v \<in> set es \<or> (\<exists>m. Reject v m \<in> set es)"
  by (induction es rule: served.induct) auto

lemma reset_loop_map: "reset_loop q = map (\<lambda>v. Reject v ''Rate limiter reset'') q"
  by (induction q) auto

lemma processQueue_no_reject:
  assumes "processQueue s = (s', effs)"
  shows "Reject v m \<notin> set effs"
proof -
  obtain s1 effs1 where l: "processQueue_loop s = (s1, effs1)" by fastforce
  have "effs1 = map Resolve (take (length effs1) (queue s))"
    using processQueue_loop_props[OF l] by simp
  then have "Reject v m \<notin> set effs1" by (metis effect.distinct(1) imageE list.set_map)
  then show ?thesis using assms l
    by (auto simp: processQueue_def scheduleRefill_def split: if_splits)
qed

lemma step_log_rejects:
  assumes "Reject v m \<in> set (log (step w c))"
  shows "Reject v m \<in> set (log w)
     \<or> ((\<exists>now. c = Reset now) \<and> m = ''Rate limiter reset'' \<and> v \<in> set (queue (limiter w)))"
proof (cases c)
  case (Acquire now)
  then show ?thesis using assms
    by (auto simp: acquire_def Let_def scheduleRefill_def split: if_splits)
next
  case (Timeout now)
  obtain s' effs where a: "processQueue (refillTokens now (limiter w)) = (s', effs)" by fastforce
  from processQueue_no_reject[OF a] show ?thesis using assms a Timeout
    by (auto simp: onTimeout_def)
next
  case (GetStatus now)
  then show ?thesis using assms by simp
next
  case (Reset now)
  then show ?thesis using assms by (auto simp: reset_def reset_loop_map)
qed

lemma step_pending_mono: "set (pending w) \<subseteq> set (pending (step w c))"
  using step_shape[of w c] by auto

lemma world_inv_queue_pending: "world_inv w \<Longrightarrow> set (queue (limiter w)) \<subseteq> set (pending w)"
  unfolding world_inv_def by (metis Un_upper2 set_append)

lemma run_rejects:
  assumes "Reject v m \<in> set (log (run (fresh cap t0) cs))"
  shows "m = ''Rate limiter reset'' \<and> (\<exists>now. Reset now \<in> set cs)
     \<and> v \<in> set (pending (run (fresh cap t0) cs))"
  using assms
proof (induction cs rule: rev_induct)
  case Nil
  then show ?case by (simp add: run_def fresh_def)
next
  case (snoc c cs)
  let ?w = "run (fresh cap t0) cs"
  from snoc.prems have "Reject v m \<in> set (log (step ?w c))" by (simp add: run_snoc)
  then consider (old) "Reject v m \<in> set (log ?w)"
    | (new) "(\<exists>now. c = Reset now)" "m = ''Rate limiter reset''" "v \<in> set (queue (limiter ?w))"
    using step_log_rejects by blast
  then show ?case
  proof cases
    case old
    then show ?thesis using snoc.IH step_pending_mono[of ?w c] by (auto simp: run_snoc)
  next
    case new
    have "v \<in> set (pending ?w)"
      using new(3) world_inv_queue_pending[OF world_inv_run] by blast
    then show ?thesis using new step_pending_mono[of ?w c] by (auto simp: run_snoc)
  qed
qed

lemma fifo_no_overtaking:
  assumes "world_inv w" "a \<in> set (pending w)" "b \<in> set (pending w)" "a < b"
    "b \<in> set (served (log w))"
  shows "a \<in> set (served (log w))"
proof (rule ccontr)
  assume n: "a \<notin> set (served (log w))"
  let ?F = "filter (\<lambda>v. v \<in> set (pending w)) (served (log w))"
  have p: "pending w = ?F @ queue (limiter w)" and srt: "sorted_wrt (<) (pending w)"
    using assms(1) by (simp_all add: world_inv_def)
  have "a \<notin> set ?F" using n by simp
  then have aq: "a \<in> set (queue (limiter w))" using assms(2) p by (metis Un_iff set_append)
  have bf: "b \<in> set ?F" using assms(3,5) by simp
  have "sorted_wrt (<) (?F @ queue (limiter w))" using srt p by simp
  then have "b < a" using aq bf unfolding sorted_wrt_append by blast
  then show False using assms(4) by simp
qed



lemma acquire_grant:
  assumes "Resolve v \<in> set (snd (acquire now v s))"
  shows "1 \<le> tokens (refillTokens now s) \<and> tokens (fst (acquire now v s)) = tokens (refillTokens now s) - 1"
  using assms by (auto simp: acquire_def Let_def scheduleRefill_def split: if_splits)

lemma onTimeout_grant:
  "tokens (fst (onTimeout now s)) = tokens (refillTokens now s) - of_nat (length (served (snd (onTimeout now s))))
   \<and> (served (snd (onTimeout now s)) \<noteq> [] \<longrightarrow> 0 \<le> tokens (fst (onTimeout now s)))"
proof -
  obtain s' effs where a: "processQueue (refillTokens now s) = (s', effs)" by fastforce
  from processQueue_props[OF a] a show ?thesis by (auto simp: onTimeout_def)
qed

lemma fresh_limiter:
  "maxTokens (limiter (fresh cap t0)) = cap" "refillRate (limiter (fresh cap t0)) = cap / 60000"
  "tokens (limiter (fresh cap t0)) = cap" "lastRefill (limiter (fresh cap t0)) = t0"
  by (simp_all add: fresh_def RateLimiter_new_def)

text \<open>
  Claim C3, amended. After any sequence of calls on a fresh limiter the token count is at
  most the capacity, and so is the count after any further refill. A token is only taken
  from a count of at least one: \<open>acquire()\<close> resolves its caller only then and takes
  exactly one token, and the timer callback takes one token per waiter it resolves and
  leaves a count that is not negative whenever it resolves one. When the capacity is not
  negative and the clock readings never decrease, the count is never negative, also after
  any further refill; and with a positive capacity a refill after more than a minute of
  idle time (capacity divided by refill rate) gives exactly the capacity, which
  \<open>getStatus()\<close> then reports by its integer part.
\<close>

theorem token_count_within_bounds:
  "let s = limiter (run (fresh cap t0) cs) in
     maxTokens s = cap \<and> tokens s \<le> cap
     \<and> (\<forall>now. tokens (refillTokens now s) \<le> cap)
     \<and> (0 \<le> cap \<and> sorted (t0 # map clock cs) \<longrightarrow>
          0 \<le> tokens s
          \<and> (\<forall>now \<ge> lastRefill s. 0 \<le> tokens (refillTokens now s))
          \<and> (0 < cap \<longrightarrow>
               (\<forall>now > lastRefill s + 60000.
                  tokens (refillTokens now s) = cap
                  \<and> remaining (snd (getStatus now s)) = \<lfloor>cap\<rfloor>
                  \<and> total (snd (getStatus now s)) = cap)))
     \<and> (\<forall>now v s0. Resolve v \<in> set (snd (acquire now v s0)) \<longrightarrow>
          1 \<le> tokens (refillTokens now s0)
          \<and> tokens (fst (acquire now v s0)) = tokens (refillTokens now s0) - 1)
     \<and> (\<forall>now s0.
          tokens (fst (onTimeout now s0))
            = tokens (refillTokens now s0) - of_nat (length (served (snd (onTimeout now s0))))
          \<and> (served (snd (onTimeout now s0)) \<noteq> [] \<longrightarrow> 0 \<le> tokens (fst (onTimeout now s0))))"
proof -
  define s where "s = limiter (run (fresh cap t0) cs)"
  have m: "maxTokens s = cap" and r: "refillRate s = cap / 60000"
    unfolding s_def by (simp_all add: run_fields fresh_limiter)
  have le: "tokens s \<le> cap"
    unfolding s_def using run_tokens_le[of "fresh cap t0" cs] by (simp add: fresh_limiter)
  have rle: "\<forall>now. tokens (refillTokens now s) \<le> cap"
    using refillTokens_le_max[of _ s] m by simp
  have nonneg: "0 \<le> tokens s
          \<and> (\<forall>now \<ge> lastRefill s. 0 \<le> tokens (refillTokens now s))
          \<and> (0 < cap \<longrightarrow>
               (\<forall>now > lastRefill s + 60000.
                  tokens (refillTokens now s) = cap
                  \<and> remaining (snd (getStatus now s)) = \<lfloor>cap\<rfloor>
                  \<and> total (snd (getStatus now s)) = cap))"
    if h: "0 \<le> cap" "sorted (t0 # map clock cs)"
  proof -
    have t: "0 \<le> tokens s"
      unfolding s_def using h run_tokens_nonneg[of "fresh cap t0" cs] by (simp add: fresh_limiter)
    have rr: "0 \<le> refillRate s" using r h(1) by simp
    have a: "\<forall>now \<ge> lastRefill s. 0 \<le> tokens (refillTokens now s)"
      using refillTokens_nonneg[OF t _ rr] m h(1) by simp
    have b: "tokens (refillTokens now s) = cap
         \<and> remaining (snd (getStatus now s)) = \<lfloor>cap\<rfloor> \<and> total (snd (getStatus now s)) = cap"
      if "0 < cap" "lastRefill s + 60000 < now" for now
    proof -
      have "lastRefill s + 60000 \<le> now" using that(2) by simp
      then have "tokens (refillTokens now s) = cap"
        using refill_idle_full[OF that(1) m r t] by blast
      then show ?thesis using m by (simp add: getStatus_def Let_def refillTokens_fields)
    qed
    from t a b show ?thesis by blast
  qed
  have g1: "\<forall>now v s0. Resolve v \<in> set (snd (acquire now v s0)) \<longrightarrow>
          1 \<le> tokens (refillTokens now s0)
          \<and> tokens (fst (acquire now v s0)) = tokens (refillTokens now s0) - 1"
    using acquire_grant by blast
  have g2: "\<forall>now s0.
          tokens (fst (onTimeout now s0))
            = tokens (refillTokens now s0) - of_nat (length (served (snd (onTimeout now s0))))
          \<and> (served (snd (onTimeout now s0)) \<noteq> [] \<longrightarrow> 0 \<le> tokens (fst (onTimeout now s0)))"
    using onTimeout_grant by blast
  show ?thesis
    unfolding Let_def s_def[symmetric] using m le rle nonneg g1 g2 by blast
qed

lemma acquire_queue_back:
  "queue (fst (acquire now v s)) = queue s \<or> queue (fst (acquire now v s)) = queue s @ [v]"
  by (simp add: acquire_def Let_def refillTokens_fields)

lemma onTimeout_queue_front:
  "\<exists>k. served (snd (onTimeout now s)) = take k (queue s) \<and> queue (fst (onTimeout now s)) = drop k (queue s)"
proof -
  obtain s' effs where a: "processQueue (refillTokens now s) = (s', effs)" by fastforce
  from processQueue_served[OF a] a show ?thesis
    by (auto simp: onTimeout_def refillTokens_fields)
qed

theorem token_count_within_bounds_witness:
  "0 \<le> (2::rat) \<and> sorted (0 # map clock [Acquire 0, Acquire 0, Acquire 0, Timeout 30000])
   \<and> (0::rat) < 2
   \<and> lastRefill (limiter (run (fresh 2 0) [Acquire 0, Acquire 0, Acquire 0, Timeout 30000])) + 60000 < 90001
   \<and> 0 \<le> tokens (limiter (run (fresh 2 0) [Acquire 0, Acquire 0, Acquire 0, Timeout 30000]))
   \<and> tokens (refillTokens 90001 (limiter (run (fresh 2 0) [Acquire 0, Acquire 0, Acquire 0, Timeout 30000]))) = 2"
proof -
  let ?cs = "[Acquire 0, Acquire 0, Acquire 0, Timeout 30000]"
  have h: "0 \<le> (2::rat) \<and> sorted (0 # map clock ?cs)" by simp
  have p: "(0::rat) < 2" by simp
  have l: "lastRefill (limiter (run (fresh 2 0) ?cs)) + 60000 < 90001"
    by (simp add: run_fields fresh_limiter)
  show ?thesis
    using token_count_within_bounds[of 2 0 ?cs] h p l unfolding Let_def by blast
qed

text \<open>
  Claim C3 as stated fails: the count can become negative. A limiter of capacity 1 is made
  when the clock reads 60000 and gives its token away at once; then the clock is set back
  and \<open>getStatus()\<close> at reading 0 refills with an elapsed time of -60000 ms, which takes
  one token off: the count is -1 and that is what is reported.
\<close>

lemma clock_step_back_example:
  "run (fresh 1 60000) [Acquire 60000] =
     \<lparr>limiter = \<lparr>tokens = 0, maxTokens = 1, refillRate = 1 / 60000, lastRefill = 60000, queue = []\<rparr>,
      arrivals = 1, pending = [], log = [Resolve 0]\<rparr>"
  "run (fresh 1 60000) [Acquire 60000, GetStatus 0] =
     \<lparr>limiter = \<lparr>tokens = - 1, maxTokens = 1, refillRate = 1 / 60000, lastRefill = 0, queue = []\<rparr>,
      arrivals = 1, pending = [], log = [Resolve 0]\<rparr>"
  by code_simp+

theorem clock_step_back_counterexample:
  "tokens (limiter (run (fresh 1 60000) [Acquire 60000])) = 0
   \<and> tokens (limiter (run (fresh 1 60000) [Acquire 60000, GetStatus 0])) = - 1
   \<and> remaining (snd (getStatus 0 (limiter (run (fresh 1 60000) [Acquire 60000])))) = - 1"
proof -
  have f: "\<lfloor>- 1 :: rat\<rfloor> = - 1"
    using floor_of_int[of "- 1", where ?'a = rat] by simp
  show ?thesis
    unfolding clock_step_back_example by (simp add: getStatus_def refillTokens_def f)
qed

text \<open>
  Claim C4, amended. Among the callers that had to wait, service is first in, first out:
  the waiters already served (resolved or rejected), in the order in which that happened,
  followed by the queue, are exactly the waiting callers in call order; so a waiter that
  queued later is never served before one that queued earlier. \<open>acquire()\<close> leaves the
  queue alone or appends its caller at the back, and the timer callback resolves a front
  part of the queue, in order. (A caller of \<open>acquire()\<close> who finds a token after the
  refill takes it at once, also while others wait: see the counterexample below.)
\<close>

theorem queued_waiters_fifo:
  "let w = run (fresh cap t0) cs in
     filter (\<lambda>v. v \<in> set (pending w)) (served (log w)) @ queue (limiter w) = pending w
     \<and> sorted_wrt (<) (pending w)
     \<and> (\<forall>a b. a \<in> set (pending w) \<and> b \<in> set (pending w) \<and> a < b \<and> b \<in> set (served (log w))
            \<longrightarrow> a \<in> set (served (log w)))
     \<and> (\<forall>now v s. queue (fst (acquire now v s)) = queue s
            \<or> queue (fst (acquire now v s)) = queue s @ [v])
     \<and> (\<forall>now s. \<exists>k. served (snd (onTimeout now s)) = take k (queue s)
            \<and> queue (fst (onTimeout now s)) = drop k (queue s))"
proof -
  define w where "w = run (fresh cap t0) cs"
  have inv: "world_inv w" unfolding w_def by (rule world_inv_run)
  then have 1: "filter (\<lambda>v. v \<in> set (pending w)) (served (log w)) @ queue (limiter w) = pending w"
    and 2: "sorted_wrt (<) (pending w)"
    by (simp_all add: world_inv_def)
  have 3: "\<forall>a b. a \<in> set (pending w) \<and> b \<in> set (pending w) \<and> a < b \<and> b \<in> set (served (log w))
            \<longrightarrow> a \<in> set (served (log w))"
    using fifo_no_overtaking[OF inv] by blast
  show ?thesis
    unfolding Let_def w_def[symmetric]
    using 1 2 3 acquire_queue_back onTimeout_queue_front by blast
qed

lemma fifo_example:
  "run (fresh 2 0) [Acquire 0, Acquire 0, Acquire 0, Acquire 0, Timeout 30000, Timeout 60000] =
     \<lparr>limiter = \<lparr>tokens = 0, maxTokens = 2, refillRate = 2 / 60000, lastRefill = 60000, queue = []\<rparr>,
      arrivals = 4, pending = [2, 3],
      log = [Resolve 0, Resolve 1, SetTimeout (Some 30000), SetTimeout (Some 30000),
             Resolve 2, SetTimeout (Some 30000), Resolve 3]\<rparr>"
  by code_simp

theorem queued_waiters_fifo_witness:
  "2 \<in> set (pending (run (fresh 2 0) [Acquire 0, Acquire 0, Acquire 0, Acquire 0, Timeout 30000, Timeout 60000]))
   \<and> 3 \<in> set (pending (run (fresh 2 0) [Acquire 0, Acquire 0, Acquire 0, Acquire 0, Timeout 30000, Timeout 60000]))
   \<and> (2::nat) < 3
   \<and> 3 \<in> set (served (log (run (fresh 2 0) [Acquire 0, Acquire 0, Acquire 0, Acquire 0, Timeout 30000, Timeout 60000])))
   \<and> 2 \<in> set (served (log (run (fresh 2 0) [Acquire 0, Acquire 0, Acquire 0, Acquire 0, Timeout 30000, Timeout 60000])))"
  using queued_waiters_fifo[of 2 0 "[Acquire 0, Acquire 0, Acquire 0, Acquire 0, Timeout 30000, Timeout 60000]"]
  unfolding fifo_example Let_def by simp

lemma barging_example:
  "run (fresh 1 0) [Acquire 0, Acquire 0] =
     \<lparr>limiter = \<lparr>tokens = 0, maxTokens = 1, refillRate = 1 / 60000, lastRefill = 0, queue = [1]\<rparr>,
      arrivals = 2, pending = [1], log = [Resolve 0, SetTimeout (Some 60000)]\<rparr>"
  "run (fresh 1 0) [Acquire 0, Acquire 0, Acquire 60000] =
     \<lparr>limiter = \<lparr>tokens = 0, maxTokens = 1, refillRate = 1 / 60000, lastRefill = 60000, queue = [1]\<rparr>,
      arrivals = 3, pending = [1], log = [Resolve 0, SetTimeout (Some 60000), Resolve 2]\<rparr>"
  by code_simp+

text \<open>
  Claim C4 as stated fails: tokens that become available do not always go to the waiter
  queued first. Capacity 1: caller 0 takes the token at time 0, caller 1 queues at time 0.
  A minute later the refill inside a new call of \<open>acquire()\<close> finds one token and gives
  it to the new caller 2; waiter 1 is still in the queue.
\<close>

theorem later_caller_overtakes_counterexample:
  "queue (limiter (run (fresh 1 0) [Acquire 0, Acquire 0])) = [1]
   \<and> served (log (run (fresh 1 0) [Acquire 0, Acquire 0])) = [0]
   \<and> 1 \<le> tokens (refillTokens 60000 (limiter (run (fresh 1 0) [Acquire 0, Acquire 0])))
   \<and> served (log (run (fresh 1 0) [Acquire 0, Acquire 0, Acquire 60000])) = [0, 2]
   \<and> queue (limiter (run (fresh 1 0) [Acquire 0, Acquire 0, Acquire 60000])) = [1]"
  unfolding barging_example by (simp add: refillTokens_def)

text \<open>
  Claim C5. \<open>reset()\<close> sets the count to the capacity, empties the queue and rejects
  every waiter that was in it, in order, with the error \<open>Rate limiter reset\<close>. In any run
  a rejection carries that message, happens only if \<open>reset()\<close> was called, and hits a
  caller that was waiting. No waiter is lost or served twice: every caller so far is
  either served exactly once or in the queue exactly once, and every caller that had to
  wait is in the queue, resolved, or rejected by \<open>reset()\<close>.
\<close>

theorem reset_rejects_all_waiters:
  "let w = run (fresh cap t0) cs in
     (\<forall>now s. tokens (fst (reset now s)) = maxTokens s \<and> queue (fst (reset now s)) = []
        \<and> snd (reset now s) = map (\<lambda>v. Reject v ''Rate limiter reset'') (queue s))
     \<and> (\<forall>v msg. Reject v msg \<in> set (log w) \<longrightarrow>
          msg = ''Rate limiter reset'' \<and> (\<exists>now. Reset now \<in> set cs) \<and> v \<in> set (pending w))
     \<and> distinct (served (log w) @ queue (limiter w))
     \<and> set (served (log w) @ queue (limiter w)) = {..<arrivals w}
     \<and> (\<forall>v \<in> set (pending w). v \<in> set (queue (limiter w)) \<or> Resolve v \<in> set (log w)
          \<or> Reject v ''Rate limiter reset'' \<in> set (log w))"
proof -
  define w where "w = run (fresh cap t0) cs"
  have inv: "world_inv w" unfolding w_def by (rule world_inv_run)
  have 1: "\<forall>now s. tokens (fst (reset now s)) = maxTokens s \<and> queue (fst (reset now s)) = []
        \<and> snd (reset now s) = map (\<lambda>v. Reject v ''Rate limiter reset'') (queue s)"
    by (simp add: reset_def reset_loop_map)
  have 2: "\<forall>v msg. Reject v msg \<in> set (log w) \<longrightarrow>
          msg = ''Rate limiter reset'' \<and> (\<exists>now. Reset now \<in> set cs) \<and> v \<in> set (pending w)"
    unfolding w_def using run_rejects by blast
  have 3: "distinct (served (log w) @ queue (limiter w))"
    and 4: "set (served (log w) @ queue (limiter w)) = {..<arrivals w}"
    using inv by (simp_all add: world_inv_def)
  have 5: "v \<in> set (queue (limiter w)) \<or> Resolve v \<in> set (log w)
          \<or> Reject v ''Rate limiter reset'' \<in> set (log w)" if "v \<in> set (pending w)" for v
  proof -
    have "v < arrivals w" using inv that by (simp add: world_inv_def)
    then have "v \<in> set (served (log w) @ queue (limiter w))" using 4 by simp
    then consider "v \<in> set (queue (limiter w))" | "Resolve v \<in> set (log w)"
      | m where "Reject v m \<in> set (log w)"
      by (auto simp: served_set)
    then show ?thesis
    proof cases
      case 3
      then have "m = ''Rate limiter reset''" using 2 by blast
      then show ?thesis using 3 by simp
    qed simp_all
  qed
  show ?thesis
    unfolding Let_def w_def[symmetric] using 1 2 3 4 5 by blast
qed

lemma reset_example:
  "run (fresh 2 0) [Acquire 0, Acquire 0, Acquire 0, Acquire 0, Timeout 30000, Reset 30001] =
     \<lparr>limiter = \<lparr>tokens = 2, maxTokens = 2, refillRate = 2 / 60000, lastRefill = 30001, queue = []\<rparr>,
      arrivals = 4, pending = [2, 3],
      log = [Resolve 0, Resolve 1, SetTimeout (Some 30000), SetTimeout (Some 30000),
             Resolve 2, SetTimeout (Some 30000), Reject 3 ''Rate limiter reset'']\<rparr>"
  by code_simp

theorem reset_rejects_all_waiters_witness:
  "Reject 3 ''Rate limiter reset'' \<in> set (log (run (fresh 2 0) [Acquire 0, Acquire 0, Acquire 0, Acquire 0, Timeout 30000, Reset 30001]))
   \<and> (\<exists>now. Reset now \<in> set [Acquire 0, Acquire 0, Acquire 0, Acquire 0, Timeout 30000, Reset 30001])
   \<and> 3 \<in> set (pending (run (fresh 2 0) [Acquire 0, Acquire 0, Acquire 0, Acquire 0, Timeout 30000, Reset 30001]))
   \<and> 2 \<in> set (pending (run (fresh 2 0) [Acquire 0, Acquire 0, Acquire 0, Acquire 0, Timeout 30000, Reset 30001]))
   \<and> Resolve 2 \<in> set (log (run (fresh 2 0) [Acquire 0, Acquire 0, Acquire 0, Acquire 0, Timeout 30000, Reset 30001]))"
  using reset_rejects_all_waiters[of 2 0 "[Acquire 0, Acquire 0, Acquire 0, Acquire 0, Timeout 30000, Reset 30001]"]
  unfolding reset_example Let_def by simp

section \<open>Properties of the error handling\<close>

declare decimal.simps [simp del]

lemma of_char_digit_char: "d < 10 \<Longrightarrow> (of_char (digit_char d) :: nat) = 48 + d"
  by (simp add: digit_char_def)

lemma digit_char_props:
  assumes "d < 10"
  shows "is_digit (digit_char d)" "\<not> is_space (digit_char d)" "digit_value (digit_char d) = d"
    "digit_char d \<noteq> CHR ''-''" "digit_char d \<noteq> CHR ''+''"
proof -
  note c = of_char_digit_char[OF assms]
  show "is_digit (digit_char d)" using c assms by (simp add: is_digit_def)
  show "\<not> is_space (digit_char d)" using c assms by (simp add: is_space_def)
  show "digit_value (digit_char d) = d" using c by (simp add: digit_value_def)
  show "digit_char d \<noteq> CHR ''-''"
  proof
    assume "digit_char d = CHR ''-''"
    then have "(of_char (digit_char d) :: nat) = of_char (CHR ''-'')" by simp
    then show False using c by simp
  qed
  show "digit_char d \<noteq> CHR ''+''"
  proof
    assume "digit_char d = CHR ''+''"
    then have "(of_char (digit_char d) :: nat) = of_char (CHR ''+'')" by simp
    then show False using c by simp
  qed
qed

lemma decimal_digits: "decimal n \<noteq> [] \<and> (\<forall>c \<in> set (decimal n). is_digit c)"
proof (induction n rule: decimal.induct)
  case (1 n)
  show ?case
  proof (cases "n < 10")
    case True
    then show ?thesis by (simp add: decimal.simps[of n] digit_char_props)
  next
    case False
    then show ?thesis using "1.IH" by (simp add: decimal.simps[of n] digit_char_props)
  qed
qed

lemma digits_value_snoc: "digits_value (ds @ [c]) = digits_value ds * 10 + digit_value c"
  by (simp add: digits_value_def)

lemma digits_value_decimal: "digits_value (decimal n) = n"
proof (induction n rule: decimal.induct)
  case (1 n)
  show ?case
  proof (cases "n < 10")
    case True
    then show ?thesis by (simp add: decimal.simps[of n] digits_value_def digit_char_props)
  next
    case False
    then have "digits_value (decimal n) = (n div 10) * 10 + n mod 10"
      using "1.IH" by (simp add: decimal.simps[of n] digits_value_snoc digit_char_props)
    then show ?thesis by simp
  qed
qed

lemma is_digit_not_special:
  assumes "is_digit c"
  shows "\<not> is_space c" "c \<noteq> CHR ''-''" "c \<noteq> CHR ''+''"
proof -
  show "\<not> is_space c" using assms by (auto simp: is_digit_def is_space_def)
  show "c \<noteq> CHR ''-''" using assms by (auto simp: is_digit_def)
  show "c \<noteq> CHR ''+''" using assms by (auto simp: is_digit_def)
qed

lemma parseInt10_decimal: "parseInt10 (decimal n) = Some (int n)"
proof -
  obtain c cs where d: "decimal n = c # cs"
    using decimal_digits[of n] by (cases "decimal n") auto
  have all: "\<forall>x \<in> set (c # cs). is_digit x" using decimal_digits[of n] d by simp
  then have c: "is_digit c" by simp
  have t: "takeWhile is_digit (c # cs) = c # cs" using all by (simp add: takeWhile_eq_all_conv)
  have v: "digits_value (c # cs) = n" using digits_value_decimal[of n] d by simp
  show ?thesis
    unfolding parseInt10_def d using is_digit_not_special[OF c] t v
    by (simp add: Let_def)
qed

lemma decimal_nonempty: "decimal n \<noteq> []"
  using decimal_digits by blast

text \<open>
  What \<open>parseRedditError\<close> does with an instance of \<open>AxiosError\<close> that carries a response:
  it goes by the status code, which it also stores. 401 gives an \<open>AuthenticationError\<close>,
  403 a \<open>ForbiddenError\<close>, 404 a \<open>NotFoundError\<close>; 429 gives a \<open>RateLimitError\<close> whose
  \<open>retryAfter\<close> is the number written in decimal in the \<open>retry-after\<close> header (for
  numbers up to \<open>2^53\<close>, which a double holds exactly), and 60 when there is no such
  header; 500, 502, 503 and 504 give a \<open>RedditAPIError\<close> with the code
  \<open>SERVICE_UNAVAILABLE\<close>, and every other status one with the code \<open>UNKNOWN_ERROR\<close>.
\<close>

lemma parseRedditError_by_status:
  "let e = parseRedditError (AxiosError msg (Some \<lparr>status = st, data = d, retry_after = h\<rparr>)) in
     statusCode e = Some st
     \<and> (st = 401 \<longrightarrow> cls e = AuthenticationError)
     \<and> (st = 403 \<longrightarrow> cls e = ForbiddenError)
     \<and> (st = 404 \<longrightarrow> cls e = NotFoundError)
     \<and> (st = 429 \<longrightarrow>
          (\<exists>after. cls e = RateLimitError after)
          \<and> (\<forall>n \<le> 2 ^ 53. h = Some (decimal n) \<longrightarrow> cls e = RateLimitError (Num (of_nat n)))
          \<and> (h = None \<longrightarrow> cls e = RateLimitError (Num 60)))
     \<and> (st \<in> {500, 502, 503, 504} \<longrightarrow>
          cls e = RedditAPIError \<and> errorCode e = Some ''SERVICE_UNAVAILABLE'')
     \<and> (st \<notin> {401, 403, 404, 429, 500, 502, 503, 504} \<longrightarrow>
          cls e = RedditAPIError \<and> errorCode e = Some ''UNKNOWN_ERROR'')"
proof -
  have sixty: "parseInt10 ''60'' = Some 60" by code_simp
  have dec: "or_else (Some (decimal n)) ''60'' = decimal n" for n
    using decimal_nonempty[of n] by (simp add: or_else_def)
  have rl: "\<forall>n \<le> 2 ^ 53. h = Some (decimal n) \<longrightarrow>
      as_number (parseInt10 (or_else h ''60'')) = Num (of_nat n)"
    by (auto simp: dec parseInt10_decimal as_number_def)
  have ab: "h = None \<longrightarrow> as_number (parseInt10 (or_else h ''60'')) = Num 60"
    by (simp add: or_else_def sixty as_number_def)
  show ?thesis
    unfolding Let_def parseRedditError_def
    using rl ab
    by (simp add: new_AuthenticationError_def new_ForbiddenError_def new_NotFoundError_def
          new_RateLimitError_def new_RedditAPIError_def)
qed

text \<open>
  Claim C6 asks for this classification of every error that carries an HTTP response.
  The code gives it to instances of \<open>AxiosError\<close> only. The object of the module's own
  test, \<open>{response: {status: 401, data: {message: 'Invalid credentials'}},
  isAxiosError: true}\<close>, is neither an \<open>AxiosError\<close> nor an \<open>Error\<close> for \<open>instanceof\<close>,
  so \<open>parseRedditError\<close> returns the plain \<open>RedditAPIError\<close> with the message
  \<open>An unknown error occurred\<close>, without status and without code, where the test and the
  claim expect an \<open>AuthenticationError\<close> with the message of the response and status 401.
\<close>

theorem parseRedditError_plain_object:
  "parseRedditError test_object = new_RedditAPIError ''An unknown error occurred'' None None None
   \<and> cls (parseRedditError test_object) = RedditAPIError
   \<and> cls (parseRedditError test_object) \<noteq> AuthenticationError
   \<and> message (parseRedditError test_object) = ''An unknown error occurred''
   \<and> statusCode (parseRedditError test_object) = None
   \<and> errorCode (parseRedditError test_object) = None"
  by (simp add: parseRedditError_def test_object_def new_RedditAPIError_def)

lemma retry_ok_snoc:
  assumes "retry_ok fn rnd baseDelay slept" "fn (length slept) = Inl err" "\<not> no_retry err"
  shows "retry_ok fn rnd baseDelay (slept @ [sleep_time baseDelay rnd (length slept) err])"
  unfolding retry_ok_def
proof (intro allI impI)
  fix j
  assume "j < length (slept @ [sleep_time baseDelay rnd (length slept) err])"
  then consider "j < length slept" | "j = length slept" by fastforce
  then show "\<exists>e. fn j = Inl e \<and> \<not> no_retry e
      \<and> (slept @ [sleep_time baseDelay rnd (length slept) err]) ! j = sleep_time baseDelay rnd j e"
  proof cases
    case 1
    then show ?thesis using assms(1) by (auto simp: retry_ok_def nth_append)
  next
    case 2
    then show ?thesis using assms(2,3) by (simp add: nth_append)
  qed
qed

lemma retry_loop_spec:
  assumes "int attempt \<le> maxRetries" "length slept = attempt" "retry_ok fn rnd baseDelay slept"
  shows "let r = retry_loop fn rnd maxRetries baseDelay attempt lastError slept in
     retry_ok fn rnd baseDelay (sleeps r)
     \<and> invocations r = Suc (length (sleeps r))
     \<and> int (length (sleeps r)) \<le> maxRetries
     \<and> (case fn (length (sleeps r)) of
          Inr v \<Rightarrow> outcome r = Inr v
        | Inl err \<Rightarrow>
            if no_retry err then outcome r = Inl err
            else outcome r = Inl (to_Error err) \<and> int (length (sleeps r)) = maxRetries)"
  using assms
proof (induction fn rnd maxRetries baseDelay attempt lastError slept rule: retry_loop.induct)
  case (1 fn rnd maxRetries baseDelay attempt lastError slept)
  note le = "1.prems"(1) and len = "1.prems"(2) and ok = "1.prems"(3)
  show ?case
  proof (cases "fn attempt")
    case (Inr v)
    then show ?thesis using le len ok
      by (simp add: retry_loop.simps[of fn rnd maxRetries baseDelay attempt lastError slept] Let_def)
  next
    case (Inl err)
    show ?thesis
    proof (cases "no_retry err")
      case True
      then show ?thesis using Inl le len ok
        by (simp add: retry_loop.simps[of fn rnd maxRetries baseDelay attempt lastError slept] Let_def)
    next
      case False
      show ?thesis
      proof (cases "int attempt = maxRetries")
        case True
        then show ?thesis using Inl False le len ok
          by (simp add: retry_loop.simps[of fn rnd maxRetries baseDelay attempt lastError slept]
                Let_def throw_lastError_def)
      next
        case ne: False
        have le': "int (Suc attempt) \<le> maxRetries" using le ne by simp
        have len': "length (slept @ [sleep_time baseDelay rnd attempt err]) = Suc attempt"
          using len by simp
        have ok': "retry_ok fn rnd baseDelay (slept @ [sleep_time baseDelay rnd attempt err])"
          using retry_ok_snoc[OF ok _ False] Inl len by simp
        have eq: "retry_loop fn rnd maxRetries baseDelay attempt lastError slept
            = retry_loop fn rnd maxRetries baseDelay (Suc attempt) (Some (to_Error err))
                (slept @ [sleep_time baseDelay rnd attempt err])"
          using Inl False ne le
          by (simp add: retry_loop.simps[of fn rnd maxRetries baseDelay attempt lastError slept])
        show ?thesis
          unfolding eq using "1.IH"[OF le Inl False ne le' len' ok'] .
      qed
    qed
  qed
qed

lemma retryWithBackoff_spec:
  assumes "0 \<le> maxRetries"
  shows "let r = retryWithBackoff fn rnd maxRetries baseDelay in
     retry_ok fn rnd baseDelay (sleeps r)
     \<and> invocations r = Suc (length (sleeps r))
     \<and> int (length (sleeps r)) \<le> maxRetries
     \<and> (case fn (length (sleeps r)) of
          Inr v \<Rightarrow> outcome r = Inr v
        | Inl err \<Rightarrow>
            if no_retry err then outcome r = Inl err
            else outcome r = Inl (to_Error err) \<and> int (length (sleeps r)) = maxRetries)"
  unfolding retryWithBackoff_def
  using retry_loop_spec[of 0 maxRetries "[]" fn rnd baseDelay None] assms
  by (simp add: retry_ok_def)

lemma sleep_time_cases:
  assumes "0 \<le> rnd j \<and> rnd j < 1"
  shows "case err of
           ApiError e \<Rightarrow>
             (case cls e of
                RateLimitError after \<Rightarrow>
                  (case after of
                     Num x \<Rightarrow> sleep_time baseDelay rnd j err = Num (x * 1000)
                   | NaN \<Rightarrow> sleep_time baseDelay rnd j err = NaN)
              | _ \<Rightarrow> (\<exists>jitter. 0 \<le> jitter \<and> jitter < 1000
                       \<and> sleep_time baseDelay rnd j err = Num (baseDelay * 2 ^ j + jitter)))
         | _ \<Rightarrow> (\<exists>jitter. 0 \<le> jitter \<and> jitter < 1000
                  \<and> sleep_time baseDelay rnd j err = Num (baseDelay * 2 ^ j + jitter))"
proof -
  have j: "0 \<le> rnd j * 1000 \<and> rnd j * 1000 < 1000" using assms by simp
  have b: "\<exists>jitter. 0 \<le> jitter \<and> jitter < 1000
      \<and> Num (baseDelay * 2 ^ j + rnd j * 1000) = Num (baseDelay * 2 ^ j + jitter)"
    using j by blast
  show ?thesis
    using b
    by (simp add: sleep_time_def Let_def split: thrown.split error_class.split number.split)
qed

lemma no_retry_iff:
  "no_retry err \<longleftrightarrow>
     (\<exists>e. err = ApiError e \<and> cls e \<in> {AuthenticationError, ForbiddenError, NotFoundError})"
  by (cases err) (auto simp: no_retry_def)

lemma to_Error_cases:
  "to_Error err =
     (case err of
        NonError v \<Rightarrow> OtherError v
      | PlainObject p \<Rightarrow> OtherError ''[object Object]''
      | _ \<Rightarrow> err)"
  by (cases err) (simp_all add: to_Error_def instanceof_Error_def String_of_def)

text \<open>
  Claim C7. For a budget \<open>maxRetries \<ge> 0\<close> and random values in \<open>[0, 1)\<close>:
  when the first invocation raises an \<open>AuthenticationError\<close>, \<open>ForbiddenError\<close> or
  \<open>NotFoundError\<close>, \<open>fn\<close> is invoked once, nothing is waited for and that very error is
  the outcome; with \<open>maxRetries = 3\<close> and a base delay of at least 1000 ms (the default),
  two failures with \<open>SERVICE_UNAVAILABLE\<close> followed by a success give the success value
  after 3 invocations and two waits, the second longer than the first. There is one
  invocation more than waits, at most \<open>maxRetries + 1\<close>. Every wait follows a failed
  invocation whose error is none of the three kinds above; after a \<open>RateLimitError\<close>
  with \<open>retryAfter = x\<close> (in seconds) the wait is \<open>x \<times> 1000\<close> ms, and after any other
  error it is \<open>baseDelay \<times> 2^attempt\<close> plus a jitter in \<open>[0, 1000)\<close>. The last invocation
  decides the outcome: its result; or its error, unchanged, when that is one of the three
  kinds; or else the budget is used up and the outcome is its error (unchanged when it is
  an \<open>Error\<close>, wrapped in a new \<open>Error\<close> otherwise). So when every invocation within the
  budget fails with an error of no such kind, there are \<open>maxRetries + 1\<close> invocations and
  the last error is thrown.
\<close>

theorem retryWithBackoff_policy:
  assumes "0 \<le> maxRetries" and "\<forall>k. 0 \<le> rnd k \<and> rnd k < 1"
  shows "let r = retryWithBackoff fn rnd maxRetries baseDelay in
     (\<forall>e. fn 0 = Inl (ApiError e)
           \<and> cls e \<in> {AuthenticationError, ForbiddenError, NotFoundError} \<longrightarrow>
        r = \<lparr>outcome = Inl (ApiError e), invocations = 1, sleeps = []\<rparr>)
     \<and> (\<forall>e0 e1 v. maxRetries = 3 \<and> 1000 \<le> baseDelay
           \<and> fn 0 = Inl (ApiError e0) \<and> cls e0 = RedditAPIError
           \<and> errorCode e0 = Some ''SERVICE_UNAVAILABLE''
           \<and> fn 1 = Inl (ApiError e1) \<and> cls e1 = RedditAPIError
           \<and> errorCode e1 = Some ''SERVICE_UNAVAILABLE''
           \<and> fn 2 = Inr v \<longrightarrow>
        r = \<lparr>outcome = Inr v, invocations = 3,
             sleeps = [Num (baseDelay * 2 ^ 0 + rnd 0 * 1000), Num (baseDelay * 2 ^ 1 + rnd 1 * 1000)]\<rparr>
        \<and> baseDelay * 2 ^ 0 + rnd 0 * 1000 < baseDelay * 2 ^ 1 + rnd 1 * 1000)
     \<and> invocations r = Suc (length (sleeps r))
     \<and> int (invocations r) \<le> maxRetries + 1
     \<and> (\<forall>j < length (sleeps r). \<exists>err. fn j = Inl err
          \<and> \<not> (\<exists>e. err = ApiError e
                 \<and> cls e \<in> {AuthenticationError, ForbiddenError, NotFoundError})
          \<and> (case err of
               ApiError e \<Rightarrow>
                 (case cls e of
                    RateLimitError after \<Rightarrow>
                      (case after of
                         Num x \<Rightarrow> sleeps r ! j = Num (x * 1000)
                       | NaN \<Rightarrow> sleeps r ! j = NaN)
                  | _ \<Rightarrow> (\<exists>jitter. 0 \<le> jitter \<and> jitter < 1000
                           \<and> sleeps r ! j = Num (baseDelay * 2 ^ j + jitter)))
             | _ \<Rightarrow> (\<exists>jitter. 0 \<le> jitter \<and> jitter < 1000
                      \<and> sleeps r ! j = Num (baseDelay * 2 ^ j + jitter))))
     \<and> (case fn (length (sleeps r)) of
          Inr v \<Rightarrow> outcome r = Inr v
        | Inl err \<Rightarrow>
            if (\<exists>e. err = ApiError e
                  \<and> cls e \<in> {AuthenticationError, ForbiddenError, NotFoundError})
            then outcome r = Inl err
            else int (length (sleeps r)) = maxRetries
              \<and> outcome r = Inl (case err of
                                  NonError v \<Rightarrow> OtherError v
                                | PlainObject p \<Rightarrow> OtherError ''[object Object]''
                                | _ \<Rightarrow> err))
     \<and> ((\<forall>k. int k \<le> maxRetries \<longrightarrow>
            (\<exists>err. fn k = Inl err
               \<and> \<not> (\<exists>e. err = ApiError e
                      \<and> cls e \<in> {AuthenticationError, ForbiddenError, NotFoundError}))) \<longrightarrow>
          int (invocations r) = maxRetries + 1
          \<and> (\<exists>err. fn (nat maxRetries) = Inl err
                \<and> outcome r = Inl (case err of
                                    NonError v \<Rightarrow> OtherError v
                                  | PlainObject p \<Rightarrow> OtherError ''[object Object]''
                                  | _ \<Rightarrow> err)))"
proof -
  define r where "r = retryWithBackoff fn rnd maxRetries baseDelay"
  note spec = retryWithBackoff_spec[OF assms(1), of fn rnd baseDelay, unfolded Let_def, folded r_def]
  have ok: "retry_ok fn rnd baseDelay (sleeps r)"
    and inv: "invocations r = Suc (length (sleeps r))"
    and bound: "int (length (sleeps r)) \<le> maxRetries"
    and out0: "case fn (length (sleeps r)) of
          Inr v \<Rightarrow> outcome r = Inr v
        | Inl err \<Rightarrow>
            if no_retry err then outcome r = Inl err
            else outcome r = Inl (to_Error err) \<and> int (length (sleeps r)) = maxRetries"
    using spec by simp_all
  have out: "case fn (length (sleeps r)) of
          Inr v \<Rightarrow> outcome r = Inr v
        | Inl err \<Rightarrow>
            if (\<exists>e. err = ApiError e
                  \<and> cls e \<in> {AuthenticationError, ForbiddenError, NotFoundError})
            then outcome r = Inl err
            else int (length (sleeps r)) = maxRetries
              \<and> outcome r = Inl (case err of
                                  NonError v \<Rightarrow> OtherError v
                                | PlainObject p \<Rightarrow> OtherError ''[object Object]''
                                | _ \<Rightarrow> err)"
  proof (cases "fn (length (sleeps r))")
    case (Inr v)
    then show ?thesis using out0 by simp
  next
    case (Inl err)
    show ?thesis
    proof (cases "no_retry err")
      case True
      then have "outcome r = Inl err" using out0 Inl by simp
      then show ?thesis using Inl True unfolding no_retry_iff by simp
    next
      case False
      then have "outcome r = Inl (to_Error err)" "int (length (sleeps r)) = maxRetries"
        using out0 Inl by simp_all
      then show ?thesis using Inl False unfolding no_retry_iff to_Error_cases by auto
    qed
  qed
  have a: "r = \<lparr>outcome = Inl (ApiError e), invocations = 1, sleeps = []\<rparr>"
    if "fn 0 = Inl (ApiError e)" "cls e \<in> {AuthenticationError, ForbiddenError, NotFoundError}" for e
  proof -
    have "no_retry (ApiError e)" using that(2) by (auto simp: no_retry_def)
    then show ?thesis
      unfolding r_def retryWithBackoff_def using that(1) assms(1)
      by (simp add: retry_loop.simps[of fn rnd maxRetries baseDelay 0 None "[]"])
  qed
  have b: "r = \<lparr>outcome = Inr v, invocations = 3,
             sleeps = [Num (baseDelay * 2 ^ 0 + rnd 0 * 1000), Num (baseDelay * 2 ^ 1 + rnd 1 * 1000)]\<rparr>
        \<and> baseDelay * 2 ^ 0 + rnd 0 * 1000 < baseDelay * 2 ^ 1 + rnd 1 * 1000"
    if h: "maxRetries = 3" "1000 \<le> baseDelay" "fn 0 = Inl (ApiError e0)" "cls e0 = RedditAPIError"
      "fn 1 = Inl (ApiError e1)" "cls e1 = RedditAPIError" "fn 2 = Inr v" for e0 e1 v
  proof -
    have n0: "\<not> no_retry (ApiError e0)" and n1: "\<not> no_retry (ApiError e1)"
      using h(4,6) by (simp_all add: no_retry_def)
    have s0: "sleep_time baseDelay rnd 0 (ApiError e0) = Num (baseDelay * 2 ^ 0 + rnd 0 * 1000)"
      and s1: "sleep_time baseDelay rnd 1 (ApiError e1) = Num (baseDelay * 2 ^ 1 + rnd 1 * 1000)"
      using h(4,6) by (simp_all add: sleep_time_def)
    have st0: "retry_loop fn rnd 3 baseDelay 0 None []
        = retry_loop fn rnd 3 baseDelay 1 (Some (to_Error (ApiError e0)))
            [Num (baseDelay * 2 ^ 0 + rnd 0 * 1000)]"
      using h(3) n0 s0 by (simp add: retry_loop.simps[of fn rnd 3 baseDelay 0 None "[]"])
    have st1: "retry_loop fn rnd 3 baseDelay 1 (Some (to_Error (ApiError e0)))
            [Num (baseDelay * 2 ^ 0 + rnd 0 * 1000)]
        = retry_loop fn rnd 3 baseDelay 2 (Some (to_Error (ApiError e1)))
            [Num (baseDelay * 2 ^ 0 + rnd 0 * 1000), Num (baseDelay * 2 ^ 1 + rnd 1 * 1000)]"
      using h(5) n1 s1
      by (simp add: numeral_2_eq_2 retry_loop.simps[of fn rnd 3 baseDelay 1 "Some (to_Error (ApiError e0))"
                "[Num (baseDelay * 2 ^ 0 + rnd 0 * 1000)]"])
    have st2: "retry_loop fn rnd 3 baseDelay 2 (Some (to_Error (ApiError e1)))
            [Num (baseDelay * 2 ^ 0 + rnd 0 * 1000), Num (baseDelay * 2 ^ 1 + rnd 1 * 1000)]
        = \<lparr>outcome = Inr v, invocations = 3,
             sleeps = [Num (baseDelay * 2 ^ 0 + rnd 0 * 1000), Num (baseDelay * 2 ^ 1 + rnd 1 * 1000)]\<rparr>"
      using h(7)
      by (simp add: numeral_3_eq_3 retry_loop.simps[of fn rnd 3 baseDelay 2 "Some (to_Error (ApiError e1))"
                "[Num (baseDelay * 2 ^ 0 + rnd 0 * 1000), Num (baseDelay * 2 ^ 1 + rnd 1 * 1000)]"])
    have run: "r = \<lparr>outcome = Inr v, invocations = 3,
             sleeps = [Num (baseDelay * 2 ^ 0 + rnd 0 * 1000), Num (baseDelay * 2 ^ 1 + rnd 1 * 1000)]\<rparr>"
      unfolding r_def retryWithBackoff_def h(1) st0 st1 st2 ..
    have "rnd 0 < 1" "0 \<le> rnd 1" using assms(2) by simp_all
    then have "baseDelay * 2 ^ 0 + rnd 0 * 1000 < baseDelay * 2 ^ 1 + rnd 1 * 1000"
      using h(2) by simp
    with run show ?thesis by blast
  qed
  have c: "\<exists>err. fn j = Inl err
          \<and> \<not> (\<exists>e. err = ApiError e
                 \<and> cls e \<in> {AuthenticationError, ForbiddenError, NotFoundError})
          \<and> (case err of
               ApiError e \<Rightarrow>
                 (case cls e of
                    RateLimitError after \<Rightarrow>
                      (case after of
                         Num x \<Rightarrow> sleeps r ! j = Num (x * 1000)
                       | NaN \<Rightarrow> sleeps r ! j = NaN)
                  | _ \<Rightarrow> (\<exists>jitter. 0 \<le> jitter \<and> jitter < 1000
                           \<and> sleeps r ! j = Num (baseDelay * 2 ^ j + jitter)))
             | _ \<Rightarrow> (\<exists>jitter. 0 \<le> jitter \<and> jitter < 1000
                      \<and> sleeps r ! j = Num (baseDelay * 2 ^ j + jitter)))"
    if jl: "j < length (sleeps r)" for j
  proof -
    obtain err where e: "fn j = Inl err" "\<not> no_retry err"
      "sleeps r ! j = sleep_time baseDelay rnd j err"
      using ok jl unfolding retry_ok_def by blast
    have rj: "0 \<le> rnd j \<and> rnd j < 1" using assms(2) by simp
    have "case err of
               ApiError e \<Rightarrow>
                 (case cls e of
                    RateLimitError after \<Rightarrow>
                      (case after of
                         Num x \<Rightarrow> sleeps r ! j = Num (x * 1000)
                       | NaN \<Rightarrow> sleeps r ! j = NaN)
                  | _ \<Rightarrow> (\<exists>jitter. 0 \<le> jitter \<and> jitter < 1000
                           \<and> sleeps r ! j = Num (baseDelay * 2 ^ j + jitter)))
             | _ \<Rightarrow> (\<exists>jitter. 0 \<le> jitter \<and> jitter < 1000
                      \<and> sleeps r ! j = Num (baseDelay * 2 ^ j + jitter))"
      unfolding e(3) using rj by (rule sleep_time_cases)
    then show ?thesis using e(1,2) unfolding no_retry_iff by blast
  qed
  have d: "int (invocations r) = maxRetries + 1
          \<and> (\<exists>err. fn (nat maxRetries) = Inl err
                \<and> outcome r = Inl (case err of
                                    NonError v \<Rightarrow> OtherError v
                                  | PlainObject p \<Rightarrow> OtherError ''[object Object]''
                                  | _ \<Rightarrow> err))"
    if all: "\<forall>k. int k \<le> maxRetries \<longrightarrow>
            (\<exists>err. fn k = Inl err
               \<and> \<not> (\<exists>e. err = ApiError e
                      \<and> cls e \<in> {AuthenticationError, ForbiddenError, NotFoundError}))"
  proof -
    obtain err where e: "fn (length (sleeps r)) = Inl err" "\<not> no_retry err"
      using all bound unfolding no_retry_iff by blast
    then have o: "outcome r = Inl (to_Error err)" and l: "int (length (sleeps r)) = maxRetries"
      using out0 by simp_all
    have n: "nat maxRetries = length (sleeps r)" using l by simp
    show ?thesis using e(1) o l inv n unfolding to_Error_cases by auto
  qed
  have bnd: "int (invocations r) \<le> maxRetries + 1" using inv bound by simp
  show ?thesis
    unfolding Let_def r_def[symmetric]
    using a b c d out inv bnd by blast
qed

lemma limited_once_run:
  "retryWithBackoff limited_once half 3 1000
     = \<lparr>outcome = Inr 7, invocations = 2, sleeps = [Num 5000]\<rparr>"
  by code_simp

theorem retryWithBackoff_policy_witness:
  "(0::int) \<le> 3 \<and> (\<forall>k. 0 \<le> half k \<and> half k < 1)
   \<and> retryWithBackoff fails_twice half 3 1000
        = \<lparr>outcome = Inr 7, invocations = 3, sleeps = [Num 1500, Num 2500]\<rparr>
   \<and> retryWithBackoff always_denied half 3 1000
        = \<lparr>outcome = Inl denied, invocations = 1, sleeps = []\<rparr>
   \<and> 0 < length (sleeps (retryWithBackoff limited_once half 3 1000))
   \<and> limited_once 0 = Inl rate_limited
   \<and> sleeps (retryWithBackoff limited_once half 3 1000) ! 0 = Num (5 * 1000)"
proof -
  have a1: "(0::int) \<le> 3" by simp
  have a2: "\<forall>k. 0 \<le> half k \<and> half k < 1" by (simp add: half_def)
  obtain e where e: "unavailable = ApiError e" "cls e = RedditAPIError"
    "errorCode e = Some ''SERVICE_UNAVAILABLE''"
    by (simp add: unavailable_def new_RedditAPIError_def)
  obtain d where d: "denied = ApiError d" "cls d = AuthenticationError"
    by (simp add: denied_def new_AuthenticationError_def)
  note p1 = retryWithBackoff_policy[OF a1 a2, of fails_twice 1000, unfolded Let_def]
  note p2 = retryWithBackoff_policy[OF a1 a2, of always_denied 1000, unfolded Let_def]
  note p3 = retryWithBackoff_policy[OF a1 a2, of limited_once 1000, unfolded Let_def]
  have h1: "(3::int) = 3 \<and> (1000::rat) \<le> 1000
           \<and> fails_twice 0 = Inl (ApiError e) \<and> cls e = RedditAPIError
           \<and> errorCode e = Some ''SERVICE_UNAVAILABLE''
           \<and> fails_twice 1 = Inl (ApiError e) \<and> cls e = RedditAPIError
           \<and> errorCode e = Some ''SERVICE_UNAVAILABLE''
           \<and> fails_twice 2 = Inr 7"
    using e by (simp add: fails_twice_def)
  have "retryWithBackoff fails_twice half 3 1000 = \<lparr>outcome = Inr 7, invocations = 3,
             sleeps = [Num (1000 * 2 ^ 0 + half 0 * 1000), Num (1000 * 2 ^ 1 + half 1 * 1000)]\<rparr>"
    by (rule p1[THEN conjunct2, THEN conjunct1, rule_format, OF h1, THEN conjunct1])
  then have r1: "retryWithBackoff fails_twice half 3 1000
        = \<lparr>outcome = Inr 7, invocations = 3, sleeps = [Num 1500, Num 2500]\<rparr>"
    by (simp add: half_def)
  have h2: "always_denied 0 = Inl (ApiError d)
      \<and> cls d \<in> {AuthenticationError, ForbiddenError, NotFoundError}"
    using d by (simp add: always_denied_def)
  have "retryWithBackoff always_denied half 3 1000
        = \<lparr>outcome = Inl (ApiError d), invocations = 1, sleeps = []\<rparr>"
    by (rule p2[THEN conjunct1, rule_format, OF h2])
  then have r2: "retryWithBackoff always_denied half 3 1000
        = \<lparr>outcome = Inl denied, invocations = 1, sleeps = []\<rparr>"
    using d(1) by simp
  have len: "0 < length (sleeps (retryWithBackoff limited_once half 3 1000))"
    by (simp add: limited_once_run)
  have f0: "limited_once 0 = Inl rate_limited" by (simp add: limited_once_def)
  note waits = p3[THEN conjunct2, THEN conjunct2, THEN conjunct2, THEN conjunct2, THEN conjunct1,
      rule_format, OF len]
  then obtain err where w: "limited_once 0 = Inl err"
    "case err of
       ApiError e \<Rightarrow>
         (case cls e of
            RateLimitError after \<Rightarrow>
              (case after of
                 Num x \<Rightarrow> sleeps (retryWithBackoff limited_once half 3 1000) ! 0 = Num (x * 1000)
               | NaN \<Rightarrow> sleeps (retryWithBackoff limited_once half 3 1000) ! 0 = NaN)
          | _ \<Rightarrow> (\<exists>jitter. 0 \<le> jitter \<and> jitter < 1000
                   \<and> sleeps (retryWithBackoff limited_once half 3 1000) ! 0
                       = Num (1000 * 2 ^ 0 + jitter)))
     | _ \<Rightarrow> (\<exists>jitter. 0 \<le> jitter \<and> jitter < 1000
              \<and> sleeps (retryWithBackoff limited_once half 3 1000) ! 0
                  = Num (1000 * 2 ^ 0 + jitter))"
    by blast
  have "err = rate_limited" using w(1) f0 by simp
  then have r3: "sleeps (retryWithBackoff limited_once half 3 1000) ! 0 = Num (5 * 1000)"
    using w(2) by (simp add: rate_limited_def new_RateLimitError_def)
  from a1 a2 r1 r2 len f0 r3 show ?thesis by (intro conjI)
qed

section \<open>Properties of the token handling\<close>

lemma cls_new_AuthenticationError: "cls (new_AuthenticationError msg) = AuthenticationError"
  by (simp add: new_AuthenticationError_def)




text \<open>
  Claim C10. When the user name or the password is missing from the configuration
  (undefined or empty), \<open>authenticateWithPassword()\<close> raises an \<open>AuthenticationError\<close>
  and returns the session untouched: no request sent, access token, expiry and refresh
  token as before. \<open>authenticateWithRefreshToken()\<close> does the same when no refresh token
  is stored.
\<close>

theorem authenticate_without_credentials:
  "(\<not> (truthy (username (config (auth w))) \<and> truthy (password (config (auth w)))) \<longrightarrow>
      authenticateWithPassword srv w =
        (Inl (new_AuthenticationError
           ''Username and password are required for script authentication''), w))
   \<and> (\<not> truthy (refreshToken (auth w)) \<longrightarrow>
      authenticateWithRefreshToken srv w =
        (Inl (new_AuthenticationError ''No refresh token available''), w))
   \<and> (\<forall>msg. cls (new_AuthenticationError msg) = AuthenticationError)"
  by (auto simp: authenticateWithPassword_def authenticateWithRefreshToken_def truthy_def
        cls_new_AuthenticationError split: option.splits)

text \<open>
  Claim C9. \<open>isAuthenticated()\<close> holds exactly when \<open>accessToken\<close> is not \<open>null\<close> and the
  clock is strictly before \<open>tokenExpiry\<close>; in particular it still holds during the last
  60000 ms before the expiry, which \<open>getAccessToken()\<close> treats as expired. It reads two
  fields and assigns none, so it is a function of the clock and the object alone.
\<close>

theorem isAuthenticated_raw_expiry:
  "(isAuthenticated now a \<longleftrightarrow> (\<exists>token. accessToken a = Some token) \<and> now < tokenExpiry a)
   \<and> (accessToken a = Some token \<and> tokenExpiry a - 60000 \<le> now \<and> now < tokenExpiry a
        \<longrightarrow> isAuthenticated now a)"
  by (auto simp: isAuthenticated_def)

text \<open>
  Claim C8, amended. Without a cached access token \<open>revokeToken()\<close> does nothing: no
  request, session unchanged. With one it sends exactly one revocation request for that
  token; when the request succeeds, the access token is set to \<open>null\<close> and the expiry to
  0; when the request fails, the error goes to the caller through \<open>parseRedditError\<close> and
  the access token and the expiry stay as they were.
\<close>

theorem revokeToken_clears_on_success:
  "(\<not> truthy (accessToken (auth w)) \<longrightarrow> revokeToken srv w = (Inr (), w))
   \<and> (\<forall>t. accessToken (auth w) = Some t \<and> t \<noteq> [] \<longrightarrow>
        sent (snd (revokeToken srv w)) = sent w @ [RevokeToken t]
        \<and> (\<forall>dat t1. srv (sent w @ [RevokeToken t]) = (Inr dat, t1) \<longrightarrow>
              revokeToken srv w =
                (Inr (), w\<lparr>auth := (auth w)\<lparr>accessToken := None, tokenExpiry := 0\<rparr>,
                           sent := sent w @ [RevokeToken t]\<rparr>))
        \<and> (\<forall>error t1. srv (sent w @ [RevokeToken t]) = (Inl error, t1) \<longrightarrow>
              revokeToken srv w =
                (Inl (parseRedditError error), w\<lparr>sent := sent w @ [RevokeToken t]\<rparr>)))"
  by (auto simp: revokeToken_def truthy_def Let_def split: option.splits prod.splits sum.splits)



text \<open>
  Claim C8 as stated fails: the token is not cleared whatever the outcome of the request.
  With the token \<open>abc\<close> cached and a server that answers 503, \<open>revokeToken()\<close> sends the
  request, raises the error, and the token and its expiry are still there.
\<close>

theorem revokeToken_failure_keeps_token_counterexample:
  "accessToken (auth logged_in) = Some ''abc''
   \<and> sent (snd (revokeToken server_down logged_in)) = [RevokeToken ''abc'']
   \<and> fst (revokeToken server_down logged_in) = Inl (parseRedditError (http_error 503))
   \<and> accessToken (auth (snd (revokeToken server_down logged_in))) = Some ''abc''
   \<and> tokenExpiry (auth (snd (revokeToken server_down logged_in))) = 3600000"
  by (simp add: revokeToken_def logged_in_def server_down_def Let_def)

theorem revokeToken_clears_on_success_witness:
  "revokeToken server_down no_credentials = (Inr (), no_credentials)
   \<and> revokeToken refresh_rejected logged_in =
        (Inr (), logged_in\<lparr>auth := (auth logged_in)\<lparr>accessToken := None, tokenExpiry := 0\<rparr>,
                           sent := sent logged_in @ [RevokeToken ''abc'']\<rparr>)
   \<and> revokeToken server_down logged_in =
        (Inl (parseRedditError (http_error 503)),
         logged_in\<lparr>sent := sent logged_in @ [RevokeToken ''abc'']\<rparr>)"
proof -
  have n: "\<not> truthy (accessToken (auth no_credentials))"
    by (simp add: no_credentials_def RedditAuth_new_def truthy_def)
  have 1: "revokeToken server_down no_credentials = (Inr (), no_credentials)"
    by (rule revokeToken_clears_on_success[of no_credentials server_down, THEN conjunct1,
          rule_format, OF n])
  have t: "accessToken (auth logged_in) = Some ''abc'' \<and> ''abc'' \<noteq> []"
    by (simp add: logged_in_def)
  have ok: "refresh_rejected (sent logged_in @ [RevokeToken ''abc'']) =
      (Inr \<lparr>access_token = ''fresh'', token_type = ''bearer'', expires_in = 3600,
           scope = ''*'', refresh_token = None\<rparr>, 2000)"
    by (simp add: refresh_rejected_def logged_in_def)
  have 2: "revokeToken refresh_rejected logged_in =
      (Inr (), logged_in\<lparr>auth := (auth logged_in)\<lparr>accessToken := None, tokenExpiry := 0\<rparr>,
                         sent := sent logged_in @ [RevokeToken ''abc'']\<rparr>)"
    by (rule revokeToken_clears_on_success[of logged_in refresh_rejected, THEN conjunct2,
          rule_format, OF t, THEN conjunct2, THEN conjunct1, rule_format, OF ok])
  have bad: "server_down (sent logged_in @ [RevokeToken ''abc'']) = (Inl (http_error 503), 1000)"
    by (simp add: server_down_def)
  have 3: "revokeToken server_down logged_in =
      (Inl (parseRedditError (http_error 503)), logged_in\<lparr>sent := sent logged_in @ [RevokeToken ''abc'']\<rparr>)"
    by (rule revokeToken_clears_on_success[of logged_in server_down, THEN conjunct2,
          rule_format, OF t, THEN conjunct2, THEN conjunct2, rule_format, OF bad])
  show ?thesis using 1 2 3 by (intro conjI)
qed

theorem isAuthenticated_raw_expiry_witness:
  "accessToken (auth logged_in) = Some ''abc''
   \<and> tokenExpiry (auth logged_in) - 60000 \<le> 3540000 \<and> (3540000::int) < tokenExpiry (auth logged_in)
   \<and> isAuthenticated 3540000 (auth logged_in)
   \<and> \<not> isAuthenticated 3600000 (auth logged_in)"
  using isAuthenticated_raw_expiry[of 3540000 "auth logged_in" "''abc''"]
    isAuthenticated_raw_expiry[of 3600000 "auth logged_in" "''abc''"]
  by (simp add: logged_in_def)

theorem authenticate_without_credentials_witness:
  "\<not> (truthy (username (config (auth no_credentials))) \<and> truthy (password (config (auth no_credentials))))
   \<and> \<not> truthy (refreshToken (auth no_credentials))
   \<and> snd (authenticateWithPassword server_down no_credentials) = no_credentials
   \<and> snd (authenticateWithRefreshToken server_down no_credentials) = no_credentials
   \<and> cls (projl (fst (authenticateWithPassword server_down no_credentials))) = AuthenticationError
   \<and> cls (projl (fst (authenticateWithRefreshToken server_down no_credentials))) = AuthenticationError"
proof -
  have h: "\<not> (truthy (username (config (auth no_credentials))) \<and> truthy (password (config (auth no_credentials))))"
    "\<not> truthy (refreshToken (auth no_credentials))"
    by (simp_all add: no_credentials_def RedditAuth_new_def bare_config_def truthy_def)
  show ?thesis
    using h authenticate_without_credentials[of no_credentials server_down]
    by simp
qed

end
